theory Spec2Isabelle
  imports Main
begin

section \<open>Circuit data model (App.tsx, type definitions)\<close>

text \<open>
  The gate kinds of \<^verbatim>\<open>type GateType = BaseGateType | 'CUSTOM'\<close>.
\<close>

datatype GateType = INPUT | OUTPUT | AND | OR | NOT | CUSTOM

text \<open>
  \<^verbatim>\<open>{ gateId: string; portIndex: number }\<close>: the two ends of a wire. Port indices are
  array indices, hence natural numbers.
\<close>

record Endpoint =
  gateId :: string
  portIndex :: nat

record Wire =
  wire_id :: string
  wire_from :: Endpoint
  wire_to :: Endpoint

text \<open>
  \<^verbatim>\<open>interface Gate\<close>. The optional fields are options; \<open>position\<close> is carried along and
  never read by the simulation.
\<close>

record Gate =
  gate_id :: string
  gate_type :: GateType
  position :: "int \<times> int"
  gate_value :: bool
  gate_name :: "string option"
  customGateName :: "string option"
  inputValues :: "bool list option"
  outputValues :: "bool list option"

record AppState =
  gates :: "Gate list"
  wires :: "Wire list"

text \<open>
  \<^verbatim>\<open>Omit<Gate, 'value'>\<close> and \<^verbatim>\<open>Omit<Wire, 'id'>\<close>: what a template stores.
\<close>

record TemplateGate =
  tg_id :: string
  tg_type :: GateType
  tg_position :: "int \<times> int"
  tg_name :: "string option"
  tg_customGateName :: "string option"
  tg_inputValues :: "bool list option"
  tg_outputValues :: "bool list option"

record TemplateWire =
  tw_from :: Endpoint
  tw_to :: Endpoint

record PortDef =
  originalId :: string
  port_name :: "string option"

record CustomGateTemplate =
  t_name :: string
  t_gates :: "TemplateGate list"
  t_wires :: "TemplateWire list"
  t_inputs :: "PortDef list"
  t_outputs :: "PortDef list"

text \<open>
  \<^verbatim>\<open>customGates: Record<string, CustomGateTemplate>\<close>, the template library.
\<close>

type_synonym Library = "string \<rightharpoonup> CustomGateTemplate"

text \<open>
  A failed property read on \<^verbatim>\<open>undefined\<close> is the only exception the simulation can raise.
\<close>

datatype error = TypeError

text \<open>
  The \<^verbatim>\<open>inputs\<close> column of \<^verbatim>\<open>GATE_DIMENSIONS\<close>. The table is a
  \<^verbatim>\<open>Record<BaseGateType, ...>\<close>: it has no entry for \<^verbatim>\<open>'CUSTOM'\<close>.
\<close>

fun GATE_DIMENSIONS_inputs :: "GateType \<Rightarrow> nat option" where
  "GATE_DIMENSIONS_inputs INPUT = Some 0"
| "GATE_DIMENSIONS_inputs OUTPUT = Some 1"
| "GATE_DIMENSIONS_inputs AND = Some 2"
| "GATE_DIMENSIONS_inputs OR = Some 2"
| "GATE_DIMENSIONS_inputs NOT = Some 1"
| "GATE_DIMENSIONS_inputs CUSTOM = None"

definition MAX_ITERATIONS :: nat where
  "MAX_ITERATIONS = 50"

section \<open>The flat engine: runSimulation\<close>

text \<open>
  \<^verbatim>\<open>customGates\<close> is a plain object (an object literal or the result of
  \<^verbatim>\<open>JSON.parse\<close>), so indexing it also finds what every object inherits from
  \<^verbatim>\<open>Object.prototype\<close>. These are the inherited keys; their values are functions, and
  for \<^verbatim>\<open>__proto__\<close> the prototype object itself: all truthy, none a template.
\<close>

definition objectPrototypeKeys :: "string list" where
  "objectPrototypeKeys =
     [''constructor'', ''__defineGetter__'', ''__defineSetter__'', ''hasOwnProperty'',
      ''__lookupGetter__'', ''__lookupSetter__'', ''isPrototypeOf'', ''propertyIsEnumerable'',
      ''toString'', ''valueOf'', ''__proto__'', ''toLocaleString'']"

text \<open>
  What \<^verbatim>\<open>customGates[name]\<close> evaluates to: \<^verbatim>\<open>undefined\<close>, an inherited value that
  is truthy but has no \<^verbatim>\<open>inputs\<close>, or a stored template. The library maps the object's
  own keys, which take precedence over inherited ones.
\<close>

datatype TemplateLookup = Undefined | Inherited | Template CustomGateTemplate

text \<open>
  \<^verbatim>\<open>customGates[g.customGateName!]\<close>: an absent name is the property key
  \<^verbatim>\<open>"undefined"\<close>.
\<close>

definition lookupTemplate :: "Library \<Rightarrow> string option \<Rightarrow> TemplateLookup" where
  "lookupTemplate customGates n =
     (let k = (case n of None \<Rightarrow> ''undefined'' | Some k \<Rightarrow> k)
      in case customGates k of
           Some template \<Rightarrow> Template template
         | None \<Rightarrow> if k \<in> set objectPrototypeKeys then Inherited else Undefined)"

text \<open>
  \<^verbatim>\<open>fromGate.type === 'CUSTOM' ? (fromGate.outputValues?.[p] ?? false) : fromGate.value\<close>
\<close>

definition sourceValue :: "Gate \<Rightarrow> nat \<Rightarrow> bool" where
  "sourceValue fromGate p =
     (if gate_type fromGate = CUSTOM
      then (case outputValues fromGate of
              None \<Rightarrow> False
            | Some ovs \<Rightarrow> if p < length ovs then ovs ! p else False)
      else gate_value fromGate)"

text \<open>
  The value a wire carries, read from the gate list \<open>gs\<close>: false when no gate has the
  source id.
\<close>

definition wireValue :: "Gate list \<Rightarrow> Wire \<Rightarrow> bool" where
  "wireValue gs wire =
     (case find (\<lambda>fg. gate_id fg = gateId (wire_from wire)) gs of
        None \<Rightarrow> False
      | Some fromGate \<Rightarrow> sourceValue fromGate (portIndex (wire_from wire)))"

text \<open>
  One slot of \<^verbatim>\<open>inputValues\<close> in runSimulation: the first of the gate's incoming wires
  that targets port \<open>i\<close>.
\<close>

definition inputSlot :: "Gate list \<Rightarrow> Wire list \<Rightarrow> nat \<Rightarrow> bool" where
  "inputSlot gs inputWires i =
     (case find (\<lambda>w. portIndex (wire_to w) = i) inputWires of
        None \<Rightarrow> False
      | Some wire \<Rightarrow> wireValue gs wire)"

text \<open>
  \<^verbatim>\<open>g.type === 'CUSTOM' && gateDef ? gateDef.inputs.length : GATE_DIMENSIONS[g.type].inputs\<close>.
  For a CUSTOM gate without a template the table lookup is \<^verbatim>\<open>undefined\<close> and reading
  \<^verbatim>\<open>.inputs\<close> throws; for an inherited value \<^verbatim>\<open>gateDef.inputs\<close> is
  \<^verbatim>\<open>undefined\<close> and reading \<^verbatim>\<open>.length\<close> throws.
\<close>

definition numInputs :: "Library \<Rightarrow> Gate \<Rightarrow> error + nat" where
  "numInputs customGates g =
     (let gateDef = (if gate_type g = CUSTOM
                     then lookupTemplate customGates (customGateName g) else Undefined)
      in case gateDef of
           Template d \<Rightarrow> Inr (length (t_inputs d))
         | Inherited \<Rightarrow> Inl TypeError
         | Undefined \<Rightarrow> (case GATE_DIMENSIONS_inputs (gate_type g) of
                            None \<Rightarrow> Inl TypeError
                          | Some n \<Rightarrow> Inr n))"

text \<open>
  The kind-specific formula for \<^verbatim>\<open>newValue\<close>.
\<close>

definition newValue :: "GateType \<Rightarrow> bool list \<Rightarrow> bool" where
  "newValue ty ivs =
     (if ty = AND then list_all (\<lambda>v. v) ivs
      else if ty = OR then list_ex (\<lambda>v. v) ivs
      else if ty = NOT then (if length ivs > 0 then \<not> ivs ! 0 else True)
      else if ty = OUTPUT then (if length ivs > 0 then ivs ! 0 else False)
      else False)"

text \<open>
  Storing a value: the callback returns the same gate when the value is unchanged, and a
  copy with the new value together with \<^verbatim>\<open>changed = true\<close> otherwise.
\<close>

definition setValue :: "Gate \<Rightarrow> bool \<Rightarrow> Gate \<times> bool" where
  "setValue g v = (if gate_value g \<noteq> v then (g\<lparr>gate_value := v\<rparr>, True) else (g, False))"

text \<open>
  The callback of \<^verbatim>\<open>internalTempGates.map\<close>. \<open>cur\<close> is the array the variable
  \<^verbatim>\<open>internalTempGates\<close> holds while the map runs, that is the result of the previous
  pass: the assignment happens after the map has finished.
\<close>

definition simGate :: "Library \<Rightarrow> Wire list \<Rightarrow> Gate list \<Rightarrow> Gate \<Rightarrow> error + (Gate \<times> bool)" where
  "simGate customGates wireList cur g =
     (if gate_type g = INPUT then Inr (g, False)
      else
        let inputWires = filter (\<lambda>w. gateId (wire_to w) = gate_id g) wireList
        in case numInputs customGates g of
             Inl e \<Rightarrow> Inl e
           | Inr n \<Rightarrow>
               if gate_type g \<noteq> OUTPUT \<and> length inputWires < n
               then Inr (setValue g False)
               else Inr (setValue g
                      (newValue (gate_type g) (map (inputSlot cur inputWires) [0..<n]))))"

text \<open>
  \<^verbatim>\<open>Array.prototype.map\<close> with a callback that may throw: the first exception ends the
  traversal.
\<close>

fun mapE :: "('a \<Rightarrow> error + 'b) \<Rightarrow> 'a list \<Rightarrow> error + 'b list" where
  "mapE f [] = Inr []"
| "mapE f (x # xs) =
     (case f x of
        Inl e \<Rightarrow> Inl e
      | Inr y \<Rightarrow> (case mapE f xs of Inl e \<Rightarrow> Inl e | Inr ys \<Rightarrow> Inr (y # ys)))"

text \<open>
  One pass of the do-while body: the new gate array and the \<^verbatim>\<open>changed\<close> flag.
\<close>

definition simPass :: "Library \<Rightarrow> Wire list \<Rightarrow> Gate list \<Rightarrow> error + (Gate list \<times> bool)" where
  "simPass customGates wireList cur =
     (case mapE (simGate customGates wireList cur) cur of
        Inl e \<Rightarrow> Inl e
      | Inr rs \<Rightarrow> Inr (map fst rs, list_ex snd rs))"

text \<open>
  The do-while loop; \<open>iterations\<close> is the counter before its increment in the body.
\<close>

function simLoop :: "Library \<Rightarrow> Wire list \<Rightarrow> nat \<Rightarrow> Gate list \<Rightarrow> error + Gate list" where
  "simLoop customGates wireList iterations cur =
     (case simPass customGates wireList cur of
        Inl e \<Rightarrow> Inl e
      | Inr (next, changed) \<Rightarrow>
          if changed \<and> Suc iterations < MAX_ITERATIONS
          then simLoop customGates wireList (Suc iterations) next
          else Inr next)"
  by pat_completeness auto
termination
  by (relation "measure (\<lambda>(customGates, wireList, iterations, cur). MAX_ITERATIONS - iterations)")
     auto

definition runSimulation :: "Library \<Rightarrow> Gate list \<Rightarrow> Wire list \<Rightarrow> error + Gate list" where
  "runSimulation customGates gateList wireList = simLoop customGates wireList 0 gateList"

section \<open>The composite expander and the main loop\<close>

text \<open>
  \<^verbatim>\<open>template.gates.map(tg => ({...tg, value: false, id: tg.id}))\<close>
\<close>

definition instantiateGate :: "TemplateGate \<Rightarrow> Gate" where
  "instantiateGate tg =
     \<lparr>gate_id = tg_id tg, gate_type = tg_type tg, position = tg_position tg,
      gate_value = False, gate_name = tg_name tg,
      customGateName = tg_customGateName tg,
      inputValues = tg_inputValues tg, outputValues = tg_outputValues tg\<rparr>"

text \<open>
  \<^verbatim>\<open>template.wires.map(tw => ({...tw, id: tw.from.gateId + tw.to.gateId}))\<close>
\<close>

definition instantiateWire :: "TemplateWire \<Rightarrow> Wire" where
  "instantiateWire tw =
     \<lparr>wire_id = gateId (tw_from tw) @ gateId (tw_to tw),
      wire_from = tw_from tw, wire_to = tw_to tw\<rparr>"

text \<open>
  \<^verbatim>\<open>const ig = internalGates.find(ig => ig.id === oid); if (ig) ig.value = v\<close>:
  the first gate with that id is updated in place.
\<close>

fun seedValue :: "string \<Rightarrow> bool \<Rightarrow> Gate list \<Rightarrow> Gate list" where
  "seedValue oid v [] = []"
| "seedValue oid v (g # gs) =
     (if gate_id g = oid then g\<lparr>gate_value := v\<rparr> # gs else g # seedValue oid v gs)"

text \<open>
  \<^verbatim>\<open>template.inputs.forEach((inputDef, i) => ...)\<close> with \<^verbatim>\<open>newInputValues[i]\<close>.
\<close>

definition seedInputs :: "PortDef list \<Rightarrow> bool list \<Rightarrow> Gate list \<Rightarrow> Gate list" where
  "seedInputs inputDefs newInputValues internalGates =
     fold (\<lambda>(inputDef, v) gs. seedValue (originalId inputDef) v gs)
          (zip inputDefs newInputValues) internalGates"

text \<open>
  One element of \<^verbatim>\<open>newInputValues\<close> in the main loop: the first wire of the whole wire
  list that targets port \<open>i\<close> of gate \<open>g\<close>.
\<close>

definition liveInput :: "Gate list \<Rightarrow> Wire list \<Rightarrow> Gate \<Rightarrow> nat \<Rightarrow> bool" where
  "liveInput tempGates ws g i =
     (case find (\<lambda>w. gateId (wire_to w) = gate_id g \<and> portIndex (wire_to w) = i) ws of
        None \<Rightarrow> False
      | Some wire \<Rightarrow> wireValue tempGates wire)"

text \<open>
  \<^verbatim>\<open>simulatedInternalGates.find(ig => ig.id === outputDef.originalId)?.value ?? false\<close>
\<close>

definition harvestOutput :: "Gate list \<Rightarrow> PortDef \<Rightarrow> bool" where
  "harvestOutput simulated outputDef =
     (case find (\<lambda>ig. gate_id ig = originalId outputDef) simulated of
        None \<Rightarrow> False
      | Some ig \<Rightarrow> gate_value ig)"

text \<open>
  The callback of \<^verbatim>\<open>tempGates.map\<close> in the main loop, with its contribution to
  \<^verbatim>\<open>changedInMainLoop\<close>. \<^verbatim>\<open>JSON.stringify\<close> of an absent array is
  \<^verbatim>\<open>undefined\<close>, which differs from every string. An inherited value passes
  \<^verbatim>\<open>if (!template) return g\<close>, and \<^verbatim>\<open>template.inputs.map\<close> throws.
\<close>

definition expandGate :: "Library \<Rightarrow> Wire list \<Rightarrow> Gate list \<Rightarrow> Gate \<Rightarrow> error + (Gate \<times> bool)" where
  "expandGate customGates ws tempGates g =
     (if gate_type g \<noteq> CUSTOM then Inr (g, False)
      else case lookupTemplate customGates (customGateName g) of
        Undefined \<Rightarrow> Inr (g, False)
      | Inherited \<Rightarrow> Inl TypeError
      | Template template \<Rightarrow>
          let newInputValues = map (liveInput tempGates ws g) [0..<length (t_inputs template)];
              changedIn = (inputValues g \<noteq> Some newInputValues);
              internalGates = seedInputs (t_inputs template) newInputValues
                                (map instantiateGate (t_gates template));
              internalWires = map instantiateWire (t_wires template)
          in (case runSimulation customGates internalGates internalWires of
                Inl e \<Rightarrow> Inl e
              | Inr simulatedInternalGates \<Rightarrow>
                  (let newOutputValues = map (harvestOutput simulatedInternalGates)
                                             (t_outputs template);
                       changedOut = (outputValues g \<noteq> Some newOutputValues)
                   in Inr (g\<lparr>inputValues := Some newInputValues,
                             outputValues := Some newOutputValues\<rparr>,
                           changedIn \<or> changedOut))))"

text \<open>
  The expander sweep over all gates: \<^verbatim>\<open>nextTempGates\<close> and \<^verbatim>\<open>changedInMainLoop\<close>.
\<close>

definition expandAll :: "Library \<Rightarrow> Wire list \<Rightarrow> Gate list \<Rightarrow> error + (Gate list \<times> bool)" where
  "expandAll customGates ws tempGates =
     (case mapE (expandGate customGates ws tempGates) tempGates of
        Inl e \<Rightarrow> Inl e
      | Inr rs \<Rightarrow> Inr (map fst rs, list_ex snd rs))"

text \<open>
  One round of the main do-while body: the sweep, then runSimulation on the outer graph.
\<close>

definition mainRound :: "Library \<Rightarrow> Wire list \<Rightarrow> Gate list \<Rightarrow> error + (Gate list \<times> bool)" where
  "mainRound customGates ws tempGates =
     (case expandAll customGates ws tempGates of
        Inl e \<Rightarrow> Inl e
      | Inr (nextTempGates, changedInMainLoop) \<Rightarrow>
          (case runSimulation customGates nextTempGates ws of
             Inl e \<Rightarrow> Inl e
           | Inr simulated \<Rightarrow> Inr (simulated, changedInMainLoop)))"

function mainLoop :: "Library \<Rightarrow> Wire list \<Rightarrow> nat \<Rightarrow> Gate list \<Rightarrow> error + Gate list" where
  "mainLoop customGates ws mainIterations tempGates =
     (case mainRound customGates ws tempGates of
        Inl e \<Rightarrow> Inl e
      | Inr (simulated, changedInMainLoop) \<Rightarrow>
          if changedInMainLoop \<and> Suc mainIterations < 10
          then mainLoop customGates ws (Suc mainIterations) simulated
          else Inr simulated)"
  by pat_completeness auto
termination
  by (relation "measure (\<lambda>(customGates, ws, mainIterations, tempGates). 10 - mainIterations)")
     auto

text \<open>
  The body of the simulation effect. The final \<^verbatim>\<open>tempGates\<close> replace the gates of the
  state through \<^verbatim>\<open>setPresentState\<close>; when they print the same as the old gates the state
  is kept, which is the same circuit.
\<close>

definition evaluate :: "Library \<Rightarrow> AppState \<Rightarrow> error + AppState" where
  "evaluate customGates s =
     (case mainLoop customGates (wires s) 0 (gates s) of
        Inl e \<Rightarrow> Inl e
      | Inr tempGates \<Rightarrow> Inr (s\<lparr>gates := tempGates\<rparr>))"

section \<open>Edit operations that build circuits and templates\<close>

text \<open>
  \<^verbatim>\<open>addGate\<close>: a new gate with value false is appended. The id (built from the clock in
  the source) and the position (derived from the view transform) are parameters.
\<close>

definition addGate :: "string \<Rightarrow> GateType \<Rightarrow> int \<times> int \<Rightarrow> AppState \<Rightarrow> AppState" where
  "addGate newId ty pos s =
     s\<lparr>gates := gates s @
        [\<lparr>gate_id = newId, gate_type = ty, position = pos, gate_value = False,
          gate_name = None, customGateName = None,
          inputValues = None, outputValues = None\<rparr>]\<rparr>"

text \<open>
  \<^verbatim>\<open>handleInputToggle\<close>
\<close>

definition handleInputToggle :: "string \<Rightarrow> AppState \<Rightarrow> AppState" where
  "handleInputToggle i s =
     s\<lparr>gates := map (\<lambda>g. if gate_id g = i \<and> gate_type g = INPUT
                            then g\<lparr>gate_value := \<not> gate_value g\<rparr> else g) (gates s)\<rparr>"

text \<open>
  The input-port branch of \<^verbatim>\<open>handlePortClick\<close> with a pending connection \<open>src\<close>: a port
  that already has a wire is left alone, otherwise the new wire is appended.
\<close>

definition handlePortClick :: "string \<Rightarrow> Endpoint \<Rightarrow> Endpoint \<Rightarrow> AppState \<Rightarrow> AppState" where
  "handlePortClick newId src dst s =
     (case find (\<lambda>w. gateId (wire_to w) = gateId dst \<and> portIndex (wire_to w) = portIndex dst)
                (wires s) of
        Some w \<Rightarrow> s
      | None \<Rightarrow> s\<lparr>wires := wires s @ [\<lparr>wire_id = newId, wire_from = src, wire_to = dst\<rparr>]\<rparr>)"

text \<open>
  \<^verbatim>\<open>handleAddCustomGate\<close>: an instance of a stored template, all ports false.
\<close>

definition handleAddCustomGate :: "Library \<Rightarrow> string \<Rightarrow> string \<Rightarrow> AppState \<Rightarrow> AppState" where
  "handleAddCustomGate customGates nm newId s =
     (case customGates nm of
        None \<Rightarrow> s
      | Some template \<Rightarrow>
          s\<lparr>gates := gates s @
             [\<lparr>gate_id = newId, gate_type = CUSTOM, position = (250, 150), gate_value = False,
               gate_name = Some nm, customGateName = Some nm,
               inputValues = Some (replicate (length (t_inputs template)) False),
               outputValues = Some (replicate (length (t_outputs template)) False)\<rparr>]\<rparr>)"

text \<open>
  \<^verbatim>\<open>handleDeleteCustomGate\<close>: the template goes, its instances stay in the circuit.
\<close>

definition handleDeleteCustomGate :: "string \<Rightarrow> Library \<Rightarrow> Library" where
  "handleDeleteCustomGate nm customGates = customGates(nm := None)"

text \<open>
  \<^verbatim>\<open>Omit<Gate, 'value'>\<close> of a gate moved by \<open>(-minX, -minY)\<close>, and a wire without its id.
\<close>

definition stripGate :: "int \<Rightarrow> int \<Rightarrow> Gate \<Rightarrow> TemplateGate" where
  "stripGate minX minY g =
     \<lparr>tg_id = gate_id g, tg_type = gate_type g,
      tg_position = (fst (position g) - minX, snd (position g) - minY),
      tg_name = gate_name g, tg_customGateName = customGateName g,
      tg_inputValues = inputValues g, tg_outputValues = outputValues g\<rparr>"

definition stripWire :: "Wire \<Rightarrow> TemplateWire" where
  "stripWire w = \<lparr>tw_from = wire_from w, tw_to = wire_to w\<rparr>"

text \<open>
  The sort key of a port declaration: the vertical position of the first gate with its id.
\<close>

definition portY :: "Gate list \<Rightarrow> PortDef \<Rightarrow> int" where
  "portY gs d = (case find (\<lambda>g. gate_id g = originalId d) gs of
                   None \<Rightarrow> 0 | Some g \<Rightarrow> snd (position g))"

definition portsOf :: "GateType \<Rightarrow> Gate list \<Rightarrow> Gate list \<Rightarrow> PortDef list" where
  "portsOf ty gs selection =
     sort_key (portY gs)
       (map (\<lambda>g. \<lparr>originalId = gate_id g, port_name = gate_name g\<rparr>)
            (filter (\<lambda>g. gate_type g = ty) selection))"

definition minimum :: "int list \<Rightarrow> int" where
  "minimum xs = (case xs of [] \<Rightarrow> 0 | y # ys \<Rightarrow> fold min ys y)"

text \<open>
  \<^verbatim>\<open>handleSaveCustomGate\<close> with the trimmed upper-case name \<open>nm\<close>: the library is
  unchanged when the name or the selection is empty or the selection lacks an INPUT or
  an OUTPUT gate.
\<close>

definition handleSaveCustomGate :: "string \<Rightarrow> string list \<Rightarrow> AppState \<Rightarrow> Library \<Rightarrow> Library" where
  "handleSaveCustomGate nm selectedGateIds s customGates =
     (if nm = [] \<or> selectedGateIds = [] then customGates
      else
        let selection = filter (\<lambda>g. gate_id g \<in> set selectedGateIds) (gates s);
            ins = portsOf INPUT (gates s) selection;
            outs = portsOf OUTPUT (gates s) selection
        in if ins = [] \<or> outs = [] then customGates
           else
             let internalGates = filter (\<lambda>g. gate_type g \<noteq> INPUT \<and> gate_type g \<noteq> OUTPUT)
                                        selection;
                 allInternalIds = map gate_id internalGates @ map originalId ins
                                    @ map originalId outs;
                 internalWires = filter (\<lambda>w. gateId (wire_from w) \<in> set allInternalIds
                                             \<and> gateId (wire_to w) \<in> set allInternalIds) (wires s);
                 minX = minimum (map (\<lambda>g. fst (position g)) selection);
                 minY = minimum (map (\<lambda>g. snd (position g)) selection);
                 template = \<lparr>t_name = nm,
                             t_gates = map (stripGate minX minY)
                               (internalGates @ filter (\<lambda>g. gate_type g = INPUT
                                                           \<or> gate_type g = OUTPUT) selection),
                             t_wires = map stripWire internalWires,
                             t_inputs = ins, t_outputs = outs\<rparr>
             in customGates(nm \<mapsto> template))"

section \<open>Notions used in the statements\<close>

text \<open>
  Port \<open>i\<close> of the gate with id \<open>g\<close>.
\<close>

definition port :: "string \<Rightarrow> nat \<Rightarrow> Endpoint" where
  "port g i = \<lparr>gateId = g, portIndex = i\<rparr>"

text \<open>
  Observations on a result: the output array of the composite gate with a given id, and
  the value of a gate with a given id.
\<close>

definition outputsAt :: "string \<Rightarrow> error + AppState \<Rightarrow> bool list option" where
  "outputsAt i res =
     (case res of
        Inl e \<Rightarrow> None
      | Inr s \<Rightarrow> (case find (\<lambda>g. gate_id g = i) (gates s) of
                     None \<Rightarrow> None
                   | Some g \<Rightarrow> outputValues g))"

definition valueAt :: "string \<Rightarrow> error + AppState \<Rightarrow> bool option" where
  "valueAt i res =
     (case res of
        Inl e \<Rightarrow> None
      | Inr s \<Rightarrow> (case find (\<lambda>g. gate_id g = i) (gates s) of
                     None \<Rightarrow> None
                   | Some g \<Rightarrow> Some (gate_value g)))"

text \<open>
  The wiring invariant the editor keeps (handlePortClick refuses a second wire into a
  port): no two wires of the list share a destination port.
\<close>

definition fanInOk :: "Wire list \<Rightarrow> bool" where
  "fanInOk ws = distinct (map (\<lambda>w. (gateId (wire_to w), portIndex (wire_to w))) ws)"

text \<open>
  The gate list a pass returns (empty when it throws).
\<close>

definition passGates :: "error + (Gate list \<times> bool) \<Rightarrow> Gate list" where
  "passGates r = (case r of Inl e \<Rightarrow> [] | Inr (gs, ch) \<Rightarrow> gs)"

text \<open>
  A gate kind and template name for which runSimulation can determine the number of
  inputs: a primitive, or a CUSTOM gate whose template is in the library.
\<close>

definition templatePresent :: "Library \<Rightarrow> GateType \<Rightarrow> string option \<Rightarrow> bool" where
  "templatePresent customGates ty nm =
     (ty \<noteq> CUSTOM \<or>
      (case lookupTemplate customGates nm of
         Template template \<Rightarrow> True
       | Inherited \<Rightarrow> False
       | Undefined \<Rightarrow> False))"

text \<open>
  The same for the gates inside the template as well.
\<close>

definition templateUsable :: "Library \<Rightarrow> GateType \<Rightarrow> string option \<Rightarrow> bool" where
  "templateUsable customGates ty nm =
     (ty \<noteq> CUSTOM \<or>
      (case lookupTemplate customGates nm of
         Undefined \<Rightarrow> False
       | Inherited \<Rightarrow> False
       | Template template \<Rightarrow>
           list_all (\<lambda>tg. templatePresent customGates (tg_type tg) (tg_customGateName tg))
                    (t_gates template)))"

definition allResolved :: "Library \<Rightarrow> Gate list \<Rightarrow> bool" where
  "allResolved customGates gs =
     list_all (\<lambda>g. templateUsable customGates (gate_type g) (customGateName g)) gs"

text \<open>
  What neither the flat engine nor the expander changes in a gate.
\<close>

definition signature :: "Gate \<Rightarrow> string \<times> GateType \<times> string option" where
  "signature g = (gate_id g, gate_type g, customGateName g)"

text \<open>
  The main loop as claim C8 words it: another round is due when the gate collection after
  the round differs from the one before it, and fewer than 10 rounds have run.
\<close>

function mainLoopSpec :: "Library \<Rightarrow> Wire list \<Rightarrow> nat \<Rightarrow> Gate list \<Rightarrow> error + Gate list" where
  "mainLoopSpec customGates ws mainIterations tempGates =
     (case mainRound customGates ws tempGates of
        Inl e \<Rightarrow> Inl e
      | Inr (simulated, changedInMainLoop) \<Rightarrow>
          if simulated \<noteq> tempGates \<and> Suc mainIterations < 10
          then mainLoopSpec customGates ws (Suc mainIterations) simulated
          else Inr simulated)"
  by pat_completeness auto
termination
  by (relation "measure (\<lambda>(customGates, ws, mainIterations, tempGates). 10 - mainIterations)")
     auto

text \<open>
  The gate list after \<open>n\<close> rounds, each round one expander sweep followed by one
  runSimulation call on the swept gates.
\<close>

fun afterRounds :: "Library \<Rightarrow> Wire list \<Rightarrow> nat \<Rightarrow> Gate list \<Rightarrow> error + Gate list" where
  "afterRounds customGates ws 0 tempGates = Inr tempGates"
| "afterRounds customGates ws (Suc n) tempGates =
     (case expandAll customGates ws tempGates of
        Inl e \<Rightarrow> Inl e
      | Inr (swept, changedInMainLoop) \<Rightarrow>
          (case runSimulation customGates swept ws of
             Inl e \<Rightarrow> Inl e
           | Inr simulated \<Rightarrow> afterRounds customGates ws n simulated))"

text \<open>
  An expander sweep over the gate list changes it.
\<close>

definition sweepChanges :: "Library \<Rightarrow> Wire list \<Rightarrow> Gate list \<Rightarrow> bool" where
  "sweepChanges customGates ws tempGates =
     (case expandAll customGates ws tempGates of
        Inl e \<Rightarrow> False
      | Inr (swept, changedInMainLoop) \<Rightarrow> swept \<noteq> tempGates)"

text \<open>
  Feedback-free wiring, given by a ranking of the gate ids: every wire leads from a lower
  to a higher rank.
\<close>

definition ranked :: "(string \<Rightarrow> nat) \<Rightarrow> Wire list \<Rightarrow> bool" where
  "ranked rank ws =
     list_all (\<lambda>w. rank (gateId (wire_from w)) < rank (gateId (wire_to w))) ws"

text \<open>
  Every gate has a rank below the bound \<open>b\<close>.
\<close>

definition ranksBelow :: "(string \<Rightarrow> nat) \<Rightarrow> nat \<Rightarrow> Gate list \<Rightarrow> bool" where
  "ranksBelow rank b gs = list_all (\<lambda>g. rank (gate_id g) < b) gs"

text \<open>
  The gates of rank below \<open>k\<close> have reached their final value: a further step of the flat
  engine returns them unchanged.
\<close>

definition settled :: "Library \<Rightarrow> Wire list \<Rightarrow> (string \<Rightarrow> nat) \<Rightarrow> nat \<Rightarrow> Gate list \<Rightarrow> bool" where
  "settled customGates ws rank k cur =
     (\<forall>g\<in>set cur. rank (gate_id g) < k \<longrightarrow> simGate customGates ws cur g = Inr (g, False))"

text \<open>
  Every composite gate has a rank below the bound \<open>b\<close>.
\<close>

definition compositeRanksBelow :: "(string \<Rightarrow> nat) \<Rightarrow> nat \<Rightarrow> Gate list \<Rightarrow> bool" where
  "compositeRanksBelow rank b gs =
     list_all (\<lambda>g. gate_type g = CUSTOM \<longrightarrow> rank (gate_id g) < b) gs"

text \<open>
  Every wire into a composite gate starts at an INPUT gate, at a composite gate, or at no
  gate at all: the expander then never reads a value that the flat engine computes.
\<close>

definition compositeFed :: "Gate list \<Rightarrow> Wire list \<Rightarrow> bool" where
  "compositeFed gs ws =
     list_all (\<lambda>w. list_ex (\<lambda>g. gate_id g = gateId (wire_to w) \<and> gate_type g = CUSTOM) gs \<longrightarrow>
                 (case find (\<lambda>fg. gate_id fg = gateId (wire_from w)) gs of
                    None \<Rightarrow> True
                  | Some fg \<Rightarrow> gate_type fg = INPUT \<or> gate_type fg = CUSTOM)) ws"

text \<open>
  The composite gates of rank below \<open>k\<close> hold the port arrays a further sweep would give
  them.
\<close>

definition compositeSettled ::
  "Library \<Rightarrow> Wire list \<Rightarrow> (string \<Rightarrow> nat) \<Rightarrow> nat \<Rightarrow> Gate list \<Rightarrow> bool" where
  "compositeSettled customGates ws rank k cur =
     (\<forall>g\<in>set cur. gate_type g = CUSTOM \<and> rank (gate_id g) < k \<longrightarrow>
                    expandGate customGates ws cur g = Inr (g, False))"

text \<open>
  The value of gate \<open>g\<close> is what the formula of its kind gives on the values that its
  wires carry in the gate list \<open>src\<close>: the conjunction for an AND gate with both ports
  wired, the disjunction for an OR gate with both ports wired, the negation for a NOT
  gate with its port wired, the driver's value for a wired OUTPUT gate, and false for an
  OUTPUT gate without a wire.
\<close>

definition valueFromInputs :: "Wire list \<Rightarrow> Gate list \<Rightarrow> Gate \<Rightarrow> bool" where
  "valueFromInputs wireList src g =
     ((\<forall>w0 w1. gate_type g = AND
          \<and> w0 \<in> set wireList \<and> wire_to w0 = port (gate_id g) 0
          \<and> w1 \<in> set wireList \<and> wire_to w1 = port (gate_id g) 1
          \<longrightarrow> gate_value g = (wireValue src w0 \<and> wireValue src w1))
    \<and> (\<forall>w0 w1. gate_type g = OR
          \<and> w0 \<in> set wireList \<and> wire_to w0 = port (gate_id g) 0
          \<and> w1 \<in> set wireList \<and> wire_to w1 = port (gate_id g) 1
          \<longrightarrow> gate_value g = (wireValue src w0 \<or> wireValue src w1))
    \<and> (\<forall>w0. gate_type g = NOT
          \<and> w0 \<in> set wireList \<and> wire_to w0 = port (gate_id g) 0
          \<longrightarrow> gate_value g = (\<not> wireValue src w0))
    \<and> (\<forall>w0. gate_type g = OUTPUT
          \<and> w0 \<in> set wireList \<and> wire_to w0 = port (gate_id g) 0
          \<longrightarrow> gate_value g = wireValue src w0)
    \<and> (gate_type g = OUTPUT
          \<and> (\<forall>w\<in>set wireList. wire_to w \<noteq> port (gate_id g) 0)
          \<longrightarrow> \<not> gate_value g))"

text \<open>
  The gate list runSimulation returns (empty when it throws).
\<close>

definition simulatedGates :: "error + Gate list \<Rightarrow> Gate list" where
  "simulatedGates r = (case r of Inl e \<Rightarrow> [] | Inr gs \<Rightarrow> gs)"

section \<open>Concrete circuits\<close>

text \<open>
  The circuit without gates and wires.
\<close>

definition emptyState :: AppState where
  "emptyState = \<lparr>gates = [], wires = []\<rparr>"

text \<open>
  Two INPUT gates into an AND, the AND into a NOT, the NOT into an OUTPUT.
\<close>

definition nandDrawing :: AppState where
  "nandDrawing =
     (handlePortClick ''w4'' (port ''not'' 0) (port ''out'' 0)
     (handlePortClick ''w3'' (port ''and'' 0) (port ''not'' 0)
     (handlePortClick ''w2'' (port ''b'' 0) (port ''and'' 1)
     (handlePortClick ''w1'' (port ''a'' 0) (port ''and'' 0)
     (addGate ''out'' OUTPUT (450, 50)
     (addGate ''not'' NOT (300, 50)
     (addGate ''and'' AND (150, 50)
     (addGate ''b'' INPUT (0, 100)
     (addGate ''a'' INPUT (0, 0) emptyState)))))))))"

text \<open>
  The whole drawing selected and saved as NAND.
\<close>

definition nandLibrary :: Library where
  "nandLibrary =
     handleSaveCustomGate ''NAND'' [''a'', ''b'', ''and'', ''not'', ''out'']
       nandDrawing Map.empty"

text \<open>
  Two INPUT gates holding \<open>x\<close> and \<open>y\<close> drive an instance of NAND, whose output port
  drives an OUTPUT gate.
\<close>

definition setInput :: "string \<Rightarrow> bool \<Rightarrow> AppState \<Rightarrow> AppState" where
  "setInput i v s = (if v then handleInputToggle i s else s)"

definition nandCircuit :: "bool \<Rightarrow> bool \<Rightarrow> AppState" where
  "nandCircuit x y =
     (handlePortClick ''w3'' (port ''n'' 0) (port ''o'' 0)
     (handlePortClick ''w2'' (port ''y'' 0) (port ''n'' 1)
     (handlePortClick ''w1'' (port ''x'' 0) (port ''n'' 0)
     (addGate ''o'' OUTPUT (500, 150)
     (handleAddCustomGate nandLibrary ''NAND'' ''n''
     (setInput ''y'' y (setInput ''x'' x
     (addGate ''y'' INPUT (0, 100)
     (addGate ''x'' INPUT (0, 0) emptyState)))))))))"

text \<open>
  An AND gate with only port 0 wired, from an INPUT gate that is on.
\<close>

definition underWired :: AppState where
  "underWired =
     handlePortClick ''w1'' (port ''a'' 0) (port ''g'' 0)
       (addGate ''g'' AND (150, 0)
       (handleInputToggle ''a'' (addGate ''a'' INPUT (0, 0) emptyState)))"

text \<open>
  A single NOT gate without any wire, holding the value \<open>v\<close>.
\<close>

definition loneNot :: "bool \<Rightarrow> AppState" where
  "loneNot v = \<lparr>gates = [\<lparr>gate_id = ''n'', gate_type = NOT, position = (0, 0), gate_value = v,
                          gate_name = None, customGateName = None,
                          inputValues = None, outputValues = None\<rparr>],
                wires = []\<rparr>"

text \<open>
  What the NAND circuit is expected to settle to: the instance holds its two inputs and
  their negated conjunction, and the OUTPUT gate shows that output.
\<close>

definition nandSettled :: "bool \<Rightarrow> bool \<Rightarrow> AppState" where
  "nandSettled x y =
     (nandCircuit x y)\<lparr>gates :=
        map (\<lambda>g. if gate_id g = ''n''
                 then g\<lparr>inputValues := Some [x, y], outputValues := Some [\<not> (x \<and> y)]\<rparr>
                 else if gate_id g = ''o'' then g\<lparr>gate_value := \<not> (x \<and> y)\<rparr>
                 else g)
            (gates (nandCircuit x y))\<rparr>"

text \<open>
  An AND, an OR and a NOT gate driven by two INPUT gates holding \<open>x\<close> and \<open>y\<close>, an
  OUTPUT gate driven by the AND gate, and an OUTPUT gate without a wire.
\<close>

definition truthCircuit :: "bool \<Rightarrow> bool \<Rightarrow> AppState" where
  "truthCircuit x y =
     (handlePortClick ''w6'' (port ''and'' 0) (port ''out'' 0)
     (handlePortClick ''w5'' (port ''x'' 0) (port ''not'' 0)
     (handlePortClick ''w4'' (port ''y'' 0) (port ''or'' 1)
     (handlePortClick ''w3'' (port ''x'' 0) (port ''or'' 0)
     (handlePortClick ''w2'' (port ''y'' 0) (port ''and'' 1)
     (handlePortClick ''w1'' (port ''x'' 0) (port ''and'' 0)
     (addGate ''open'' OUTPUT (300, 300)
     (addGate ''out'' OUTPUT (300, 0)
     (addGate ''not'' NOT (150, 200)
     (addGate ''or'' OR (150, 100)
     (addGate ''and'' AND (150, 0)
     (setInput ''y'' y (setInput ''x'' x
     (addGate ''y'' INPUT (0, 100)
     (addGate ''x'' INPUT (0, 0) emptyState)))))))))))))))"

text \<open>
  The library after the NAND template has been deleted; its instances stay in circuits.
\<close>

definition emptiedLibrary :: Library where
  "emptiedLibrary = handleDeleteCustomGate ''NAND'' nandLibrary"

text \<open>
  A circuit as a shared link can deliver it: the wires name a source gate \<open>ghost\<close> that
  is not in the gate list. An OUTPUT gate and a NAND instance hang on those wires.
\<close>

definition danglingCircuit :: AppState where
  "danglingCircuit =
     (handlePortClick ''w3'' (port ''ghost'' 0) (port ''n'' 1)
     (handlePortClick ''w2'' (port ''ghost'' 0) (port ''n'' 0)
     (handlePortClick ''w1'' (port ''ghost'' 0) (port ''o'' 0)
     (handleAddCustomGate nandLibrary ''NAND'' ''n''
     (addGate ''o'' OUTPUT (300, 0) emptyState)))))"

text \<open>
  A circuit as a shared link can deliver it, with one composite gate that names no stored
  template but the key \<^verbatim>\<open>constructor\<close>.
\<close>

definition inheritedNameCircuit :: AppState where
  "inheritedNameCircuit =
     \<lparr>gates = [\<lparr>gate_id = ''c'', gate_type = CUSTOM, position = (0, 0), gate_value = False,
                 gate_name = Some ''constructor'', customGateName = Some ''constructor'',
                 inputValues = Some [], outputValues = Some []\<rparr>],
      wires = []\<rparr>"

text \<open>
  A NOT gate whose output is wired to its own input.
\<close>

definition notLoop :: "bool \<Rightarrow> AppState" where
  "notLoop v =
     handlePortClick ''w1'' (port ''n'' 0) (port ''n'' 0)
       (emptyState\<lparr>gates := gates (loneNot v)\<rparr>)"

text \<open>
  A circuit with the value of one gate, or the port arrays of one gate, replaced.
\<close>

definition withValue :: "string \<Rightarrow> bool \<Rightarrow> AppState \<Rightarrow> AppState" where
  "withValue i v s =
     s\<lparr>gates := map (\<lambda>g. if gate_id g = i then g\<lparr>gate_value := v\<rparr> else g) (gates s)\<rparr>"

definition withPorts :: "string \<Rightarrow> bool list \<Rightarrow> bool list \<Rightarrow> AppState \<Rightarrow> AppState" where
  "withPorts i ivs ovs s =
     s\<lparr>gates := map (\<lambda>g. if gate_id g = i
                            then g\<lparr>inputValues := Some ivs, outputValues := Some ovs\<rparr>
                            else g) (gates s)\<rparr>"

text \<open>
  An INPUT gate \<open>x\<close> into a NOT gate \<open>n\<close>, the NOT gate into both inputs of a NAND
  instance \<open>c\<close>, the instance into an OUTPUT gate \<open>o\<close>; no feedback anywhere.
\<close>

definition inverterDrawing :: AppState where
  "inverterDrawing =
     (handlePortClick ''w4'' (port ''c'' 0) (port ''o'' 0)
     (handlePortClick ''w3'' (port ''n'' 0) (port ''c'' 1)
     (handlePortClick ''w2'' (port ''n'' 0) (port ''c'' 0)
     (handlePortClick ''w1'' (port ''x'' 0) (port ''n'' 0)
     (addGate ''o'' OUTPUT (600, 0)
     (handleAddCustomGate nandLibrary ''NAND'' ''c''
     (addGate ''n'' NOT (150, 0)
     (addGate ''x'' INPUT (0, 0) emptyState))))))))"

text \<open>
  That circuit with given values: the INPUT, the NOT gate, the instance's two arrays and
  the OUTPUT gate.
\<close>

definition inverterState :: "bool \<Rightarrow> bool \<Rightarrow> bool list \<Rightarrow> bool list \<Rightarrow> bool \<Rightarrow> AppState" where
  "inverterState x n ivs ovs out =
     withValue ''o'' out (withPorts ''c'' ivs ovs
       (withValue ''n'' n (withValue ''x'' x inverterDrawing)))"

text \<open>
  Ranks for the circuit of all gate kinds.
\<close>

definition truthRank :: "string \<Rightarrow> nat" where
  "truthRank i = (if i = ''and'' \<or> i = ''or'' \<or> i = ''not'' then 1
                  else if i = ''out'' then 2 else 0)"

text \<open>
  Ranks for the NAND circuit, for the inverter circuit, and for the gates inside the NAND
  template.
\<close>

definition nandRank :: "string \<Rightarrow> nat" where
  "nandRank i = (if i = ''n'' then 1 else if i = ''o'' then 2 else 0)"

definition inverterRank :: "string \<Rightarrow> nat" where
  "inverterRank i = (if i = ''n'' then 1 else if i = ''c'' then 2 else if i = ''o'' then 3 else 0)"

definition templateRank :: "string \<Rightarrow> nat" where
  "templateRank i = (if i = ''and'' then 1 else if i = ''not'' then 2
                     else if i = ''out'' then 3 else 0)"

text \<open>
  An INPUT gate that is on, followed by a chain of 52 NOT gates, every value false at the
  start: a feedback-free circuit of primitives with more levels than runSimulation has
  passes.
\<close>

definition chainIds :: "string list" where
  "chainIds = map (\<lambda>c. [c]) ''abcdefghijklmnopqrstuvwxyzABCDEFGHIJKLMNOPQRSTUVWXYZ0''"

definition deepChain :: AppState where
  "deepChain =
     \<lparr>gates = gates (handleInputToggle (hd chainIds)
                        (addGate (hd chainIds) INPUT (0, 0) emptyState))
                @ gates (fold (\<lambda>i. addGate i NOT (0, 0)) (tl chainIds) emptyState),
      wires = map (\<lambda>(a, b). \<lparr>wire_id = a @ b, wire_from = port a 0, wire_to = port b 0\<rparr>)
                  (zip chainIds (tl chainIds))\<rparr>"

definition chainRank :: "string \<Rightarrow> nat" where
  "chainRank i = length (takeWhile (\<lambda>j. j \<noteq> i) chainIds)"

text \<open>
  An INPUT gate that is on, followed by a chain of 12 NAND instances, each driven on both
  inputs by the output of the one before: feedback-free, every composite fed by an INPUT
  gate or a composite, but more levels of composites than the main loop has rounds.
\<close>

definition towerIds :: "string list" where
  "towerIds = map (\<lambda>c. [c]) ''abcdefghijklm''"

definition compositeTower :: AppState where
  "compositeTower =
     \<lparr>gates = gates (handleInputToggle (hd towerIds)
                        (addGate (hd towerIds) INPUT (0, 0) emptyState))
                @ gates (fold (handleAddCustomGate nandLibrary ''NAND'') (tl towerIds) emptyState),
      wires = concat (map (\<lambda>(a, b).
                  [\<lparr>wire_id = a @ b @ ''0'', wire_from = port a 0, wire_to = port b 0\<rparr>,
                   \<lparr>wire_id = a @ b @ ''1'', wire_from = port a 0, wire_to = port b 1\<rparr>])
                (zip towerIds (tl towerIds)))\<rparr>"

definition towerRank :: "string \<Rightarrow> nat" where
  "towerRank i = length (takeWhile (\<lambda>j. j \<noteq> i) towerIds)"

section \<open>Structure of passes and loops\<close>

declare simLoop.simps [simp del] mainLoop.simps [simp del]

lemma mapE_length: "mapE f xs = Inr ys \<Longrightarrow> length ys = length xs"
  by (induction xs arbitrary: ys) (auto split: sum.splits)

lemma mapE_nth: "mapE f xs = Inr ys \<Longrightarrow> i < length xs \<Longrightarrow> f (xs ! i) = Inr (ys ! i)"
proof (induction xs arbitrary: ys i)
  case Nil
  then show ?case by simp
next
  case (Cons x xs)
  then show ?case by (cases i) (auto split: sum.splits)
qed

lemma upd_value_eq: "(g\<lparr>gate_value := v\<rparr> = g) = (gate_value g = v)"
proof
  assume "g\<lparr>gate_value := v\<rparr> = g"
  then have "gate_value (g\<lparr>gate_value := v\<rparr>) = gate_value g" by simp
  then show "gate_value g = v" by simp
next
  assume "gate_value g = v"
  then show "g\<lparr>gate_value := v\<rparr> = g" by auto
qed

lemma setValue_shape:
  "setValue g v = (g', c) \<Longrightarrow> g' = g\<lparr>gate_value := v\<rparr> \<and> c = (g' \<noteq> g)"
  by (cases "gate_value g = v") (auto simp: setValue_def upd_value_eq)

lemma simGate_cases:
  assumes "simGate lib ws cur g = Inr (g', c)"
  shows "(g' = g \<and> \<not> c) \<or> (\<exists>v. setValue g v = (g', c))"
  using assms by (auto simp: simGate_def Let_def split: if_splits sum.splits)

lemma simGate_shape:
  assumes "simGate lib ws cur g = Inr (g', c)"
  shows "g' = g\<lparr>gate_value := gate_value g'\<rparr> \<and> c = (g' \<noteq> g)"
proof -
  from simGate_cases[OF assms] show ?thesis
  proof
    assume "g' = g \<and> \<not> c"
    then show ?thesis by simp
  next
    assume "\<exists>v. setValue g v = (g', c)"
    then obtain v where "setValue g v = (g', c)" ..
    from setValue_shape[OF this] show ?thesis by simp
  qed
qed

lemma simGate_id: "simGate lib ws cur g = Inr (g', c) \<Longrightarrow> gate_id g' = gate_id g"
  by (drule simGate_shape) (metis Gate.select_convs(1) Gate.surjective Gate.update_convs(4))

lemma simGate_type: "simGate lib ws cur g = Inr (g', c) \<Longrightarrow> gate_type g' = gate_type g"
  by (drule simGate_shape) (metis Gate.select_convs(2) Gate.surjective Gate.update_convs(4))

lemma simPass_length: "simPass lib ws cur = Inr (nxt, ch) \<Longrightarrow> length nxt = length cur"
  by (auto simp: simPass_def split: sum.splits dest: mapE_length)

lemma simPass_nth:
  assumes "simPass lib ws cur = Inr (nxt, ch)" "i < length cur"
  shows "\<exists>c. simGate lib ws cur (cur ! i) = Inr (nxt ! i, c)"
proof -
  from assms(1) obtain rs where rs: "mapE (simGate lib ws cur) cur = Inr rs" "nxt = map fst rs"
    by (auto simp: simPass_def split: sum.splits)
  from mapE_nth[OF rs(1) assms(2)] mapE_length[OF rs(1)] assms(2) rs(2)
  show ?thesis by (cases "rs ! i") auto
qed

lemma simPass_elem:
  assumes "simPass lib ws cur = Inr (nxt, ch)" "g' \<in> set nxt"
  shows "\<exists>g c. g \<in> set cur \<and> simGate lib ws cur g = Inr (g', c)"
proof -
  from assms(2) obtain i where i: "i < length nxt" "nxt ! i = g'" by (auto simp: in_set_conv_nth)
  with simPass_length[OF assms(1)] have "i < length cur" by simp
  from simPass_nth[OF assms(1) this] i this show ?thesis by (metis nth_mem)
qed

lemma simLoop_last_pass:
  "simLoop lib ws it cur = Inr r \<Longrightarrow> \<exists>prev ch. simPass lib ws prev = Inr (r, ch)"
proof (induction lib ws it cur rule: simLoop.induct)
  case (1 lib ws it cur)
  show ?case
  proof (cases "simPass lib ws cur")
    case (Inl e)
    with "1.prems" show ?thesis by (simp add: simLoop.simps[of lib ws it cur])
  next
    case (Inr p)
    obtain nxt ch where p: "p = (nxt, ch)" by (cases p)
    show ?thesis
    proof (cases "ch \<and> Suc it < MAX_ITERATIONS")
      case True
      with "1.prems" Inr p have "simLoop lib ws (Suc it) nxt = Inr r"
        by (simp add: simLoop.simps[of lib ws it cur])
      with "1.IH" Inr p True show ?thesis by blast
    next
      case False
      with "1.prems" Inr p have "r = nxt"
        by (auto simp add: simLoop.simps[of lib ws it cur])
      with Inr p show ?thesis by blast
    qed
  qed
qed

lemma mainLoop_last_round:
  "mainLoop lib ws it cur = Inr r \<Longrightarrow> \<exists>prev ch. mainRound lib ws prev = Inr (r, ch)"
proof (induction lib ws it cur rule: mainLoop.induct)
  case (1 lib ws it cur)
  show ?case
  proof (cases "mainRound lib ws cur")
    case (Inl e)
    with "1.prems" show ?thesis by (simp add: mainLoop.simps[of lib ws it cur])
  next
    case (Inr p)
    obtain nxt ch where p: "p = (nxt, ch)" by (cases p)
    show ?thesis
    proof (cases "ch \<and> Suc it < 10")
      case True
      with "1.prems" Inr p have "mainLoop lib ws (Suc it) nxt = Inr r"
        by (simp add: mainLoop.simps[of lib ws it cur])
      with "1.IH" Inr p True show ?thesis by blast
    next
      case False
      with "1.prems" Inr p have "r = nxt"
        by (auto simp add: mainLoop.simps[of lib ws it cur])
      with Inr p show ?thesis by blast
    qed
  qed
qed

lemma mainRound_Inr:
  assumes "mainRound lib ws prev = Inr (r, ch)"
  shows "\<exists>nxt. expandAll lib ws prev = Inr (nxt, ch) \<and> runSimulation lib nxt ws = Inr r"
proof (cases "expandAll lib ws prev")
  case (Inl e)
  with assms show ?thesis by (simp add: mainRound_def)
next
  case (Inr p)
  obtain nxt c where p: "p = (nxt, c)" by (cases p)
  with assms Inr show ?thesis
    by (cases "runSimulation lib nxt ws") (auto simp: mainRound_def)
qed

lemma evaluate_Inr:
  assumes "evaluate lib s = Inr s'"
  shows "\<exists>r. mainLoop lib (wires s) 0 (gates s) = Inr r \<and> s' = s\<lparr>gates := r\<rparr>"
  using assms by (cases "mainLoop lib (wires s) 0 (gates s)") (auto simp: evaluate_def)

lemma evaluate_last_pass:
  assumes "evaluate lib s = Inr s'"
  shows "wires s' = wires s \<and> (\<exists>prev ch. simPass lib (wires s) prev = Inr (gates s', ch))"
proof -
  from evaluate_Inr[OF assms] obtain r
    where r: "mainLoop lib (wires s) 0 (gates s) = Inr r" "s' = s\<lparr>gates := r\<rparr>" by blast
  from mainLoop_last_round[OF r(1)] obtain prev ch
    where "mainRound lib (wires s) prev = Inr (r, ch)" by blast
  from mainRound_Inr[OF this] obtain nxt where "runSimulation lib nxt (wires s) = Inr r" by blast
  then have "\<exists>prev ch. simPass lib (wires s) prev = Inr (r, ch)"
    unfolding runSimulation_def by (rule simLoop_last_pass)
  with r(2) show ?thesis by simp
qed


lemma simGate_underwired:
  assumes "simGate lib ws cur g = Inr (g', c)" "gate_type g \<noteq> OUTPUT"
    "GATE_DIMENSIONS_inputs (gate_type g) = Some n"
    "length (filter (\<lambda>w. gateId (wire_to w) = gate_id g) ws) < n"
  shows "\<not> gate_value g'"
proof -
  from assms(3) have ty: "gate_type g \<noteq> CUSTOM" by auto
  from assms(3,4) have "gate_type g \<noteq> INPUT" by auto
  with assms ty have "setValue g False = (g', c)"
    by (simp add: simGate_def numInputs_def)
  from setValue_shape[OF this] show ?thesis by (metis Gate.select_convs(4) Gate.surjective Gate.update_convs(4))
qed

section \<open>Under-connected gates\<close>

text \<open>
  Claim C2. In the gate list that runSimulation returns, every AND, OR or NOT gate with
  fewer incoming wires than its declared number of inputs has the value false, whatever
  its formula and the values on its wired inputs say.
\<close>

theorem underwired_forced_false:
  assumes "runSimulation customGates gateList wireList = Inr result"
    and "g \<in> set result"
    and "gate_type g \<noteq> OUTPUT"
    and "GATE_DIMENSIONS_inputs (gate_type g) = Some n"
    and "length (filter (\<lambda>w. gateId (wire_to w) = gate_id g) wireList) < n"
  shows "\<not> gate_value g"
proof -
  from assms(1) obtain prev ch where "simPass customGates wireList prev = Inr (result, ch)"
    unfolding runSimulation_def by (blast dest: simLoop_last_pass)
  from simPass_elem[OF this assms(2)] obtain g0 c
    where g0: "simGate customGates wireList prev g0 = Inr (g, c)" by blast
  have "gate_type g0 = gate_type g" "gate_id g0 = gate_id g"
    using simGate_type[OF g0] simGate_id[OF g0] by simp_all
  with assms(3-5) simGate_underwired[OF g0] show ?thesis by simp
qed

text \<open>
  An AND gate whose port 0 is driven by an INPUT that is on, and whose port 1 is open.
\<close>

theorem underwired_forced_false_witness:
  "runSimulation Map.empty (gates underWired) (wires underWired) = Inr (gates underWired)
   \<and> gates underWired ! 1 \<in> set (gates underWired)
   \<and> gate_type (gates underWired ! 1) \<noteq> OUTPUT
   \<and> GATE_DIMENSIONS_inputs (gate_type (gates underWired ! 1)) = Some 2
   \<and> length (filter (\<lambda>w. gateId (wire_to w) = gate_id (gates underWired ! 1))
               (wires underWired)) < 2
   \<and> gate_value (gates underWired ! 0)
   \<and> \<not> gate_value (gates underWired ! 1)"
proof -
  have a: "runSimulation Map.empty (gates underWired) (wires underWired) = Inr (gates underWired)"
    by code_simp
  have b: "gates underWired ! 1 \<in> set (gates underWired)" by code_simp
  have c: "gate_type (gates underWired ! 1) \<noteq> OUTPUT" by code_simp
  have d: "GATE_DIMENSIONS_inputs (gate_type (gates underWired ! 1)) = Some 2" by code_simp
  have e: "length (filter (\<lambda>w. gateId (wire_to w) = gate_id (gates underWired ! 1))
               (wires underWired)) < 2" by code_simp
  have f: "gate_value (gates underWired ! 0)" by code_simp
  from underwired_forced_false[OF a b c d e] a b c d e f show ?thesis by blast
qed

text \<open>
  Claim C3, as amended. A NOT gate with no incoming wire evaluates to false: it has fewer
  wires than inputs, and the under-connection rule is applied before the negation.
\<close>

theorem unconnected_NOT_false:
  assumes "runSimulation customGates gateList wireList = Inr result"
    and "g \<in> set result"
    and "gate_type g = NOT"
    and "\<forall>w\<in>set wireList. gateId (wire_to w) \<noteq> gate_id g"
  shows "\<not> gate_value g"
proof -
  from assms(1) obtain prev ch where "simPass customGates wireList prev = Inr (result, ch)"
    unfolding runSimulation_def by (blast dest: simLoop_last_pass)
  from simPass_elem[OF this assms(2)] obtain g0 c
    where g0: "simGate customGates wireList prev g0 = Inr (g, c)" by blast
  have eq: "gate_type g0 = gate_type g" "gate_id g0 = gate_id g"
    using simGate_type[OF g0] simGate_id[OF g0] by simp_all
  from assms(4) have "filter (\<lambda>w. gateId (wire_to w) = gate_id g) wireList = []"
    by (simp add: filter_empty_conv)
  with eq assms(3) simGate_underwired[OF g0, of 1] show ?thesis by simp
qed

text \<open>
  The lone NOT gate, started at true.
\<close>

theorem unconnected_NOT_false_witness:
  "runSimulation Map.empty (gates (loneNot True)) (wires (loneNot True)) = Inr (gates (loneNot False))
   \<and> gates (loneNot False) ! 0 \<in> set (gates (loneNot False))
   \<and> gate_type (gates (loneNot False) ! 0) = NOT
   \<and> wires (loneNot True) = []
   \<and> \<not> gate_value (gates (loneNot False) ! 0)"
proof -
  have a: "runSimulation Map.empty (gates (loneNot True)) (wires (loneNot True))
             = Inr (gates (loneNot False))" by code_simp
  have b: "gates (loneNot False) ! 0 \<in> set (gates (loneNot False))" by code_simp
  have c: "gate_type (gates (loneNot False) ! 0) = NOT" by code_simp
  have d: "\<forall>w\<in>set (wires (loneNot True)). gateId (wire_to w) \<noteq> gate_id (gates (loneNot False) ! 0)"
    by (simp add: loneNot_def)
  have e: "wires (loneNot True) = []" by (simp add: loneNot_def)
  from unconnected_NOT_false[OF a b c d] a b c e show ?thesis by blast
qed

text \<open>
  Claim C3 as stated fails: the evaluation of a circuit that consists of one NOT gate
  without wires returns that gate with the value false, from either starting value.
\<close>

theorem unconnected_NOT_counterexample:
  "evaluate Map.empty (loneNot True) = Inr (loneNot False)
   \<and> evaluate Map.empty (loneNot False) = Inr (loneNot False)
   \<and> gate_type (gates (loneNot False) ! 0) = NOT
   \<and> gate_value (gates (loneNot False) ! 0) = False"
  by code_simp

section \<open>The value field of composite gates\<close>

lemma simGate_CUSTOM:
  assumes "simGate lib ws cur g = Inr (g', c)" "gate_type g = CUSTOM"
  shows "\<not> gate_value g'"
proof -
  from assms have "setValue g False = (g', c)"
    by (auto simp: simGate_def Let_def newValue_def split: sum.splits if_splits)
  from setValue_shape[OF this] show ?thesis
    by (metis Gate.select_convs(4) Gate.surjective Gate.update_convs(4))
qed

text \<open>
  Claim C9. In the circuit that evaluation returns, the \<open>value\<close> field of every CUSTOM gate
  is false.
\<close>

theorem composite_value_false:
  assumes "evaluate customGates s = Inr s'"
    and "g \<in> set (gates s')"
    and "gate_type g = CUSTOM"
  shows "\<not> gate_value g"
proof -
  from evaluate_last_pass[OF assms(1)] obtain prev ch
    where "simPass customGates (wires s) prev = Inr (gates s', ch)" by blast
  from simPass_elem[OF this assms(2)] obtain g0 c
    where g0: "simGate customGates (wires s) prev g0 = Inr (g, c)" by blast
  from simGate_type[OF g0] assms(3) have "gate_type g0 = CUSTOM" by simp
  from simGate_CUSTOM[OF g0 this] show ?thesis .
qed

text \<open>
  The NAND instance driven by two inputs that are on.
\<close>

theorem composite_value_false_witness:
  "evaluate nandLibrary (nandCircuit True True) = Inr (nandSettled True True)
   \<and> gates (nandSettled True True) ! 2 \<in> set (gates (nandSettled True True))
   \<and> gate_type (gates (nandSettled True True) ! 2) = CUSTOM
   \<and> \<not> gate_value (gates (nandSettled True True) ! 2)"
proof -
  have a: "evaluate nandLibrary (nandCircuit True True) = Inr (nandSettled True True)"
    by code_simp
  have b: "gates (nandSettled True True) ! 2 \<in> set (gates (nandSettled True True))"
    by code_simp
  have c: "gate_type (gates (nandSettled True True) ! 2) = CUSTOM" by code_simp
  from composite_value_false[OF a b c] a b c show ?thesis by blast
qed

section \<open>The NAND composite\<close>

text \<open>
  Claim C7. The drawing of two INPUT gates into an AND, a NOT and an OUTPUT is saved as
  NAND. An instance driven with (true, true) has the output false and driven with
  (true, false), (false, true) or (false, false) has the output true; an OUTPUT gate
  wired to the instance shows the same value.
\<close>

theorem nand_truth_table:
  "outputsAt ''n'' (evaluate nandLibrary (nandCircuit True True)) = Some [False]
   \<and> outputsAt ''n'' (evaluate nandLibrary (nandCircuit True False)) = Some [True]
   \<and> outputsAt ''n'' (evaluate nandLibrary (nandCircuit False True)) = Some [True]
   \<and> outputsAt ''n'' (evaluate nandLibrary (nandCircuit False False)) = Some [True]
   \<and> valueAt ''o'' (evaluate nandLibrary (nandCircuit True True)) = Some False
   \<and> valueAt ''o'' (evaluate nandLibrary (nandCircuit True False)) = Some True
   \<and> valueAt ''o'' (evaluate nandLibrary (nandCircuit False True)) = Some True
   \<and> valueAt ''o'' (evaluate nandLibrary (nandCircuit False False)) = Some True"
proof -
  have n1: "outputsAt ''n'' (evaluate nandLibrary (nandCircuit True True)) = Some [False]"
    by code_simp
  have n2: "outputsAt ''n'' (evaluate nandLibrary (nandCircuit True False)) = Some [True]"
    by code_simp
  have n3: "outputsAt ''n'' (evaluate nandLibrary (nandCircuit False True)) = Some [True]"
    by code_simp
  have n4: "outputsAt ''n'' (evaluate nandLibrary (nandCircuit False False)) = Some [True]"
    by code_simp
  have o1: "valueAt ''o'' (evaluate nandLibrary (nandCircuit True True)) = Some False"
    by code_simp
  have o2: "valueAt ''o'' (evaluate nandLibrary (nandCircuit True False)) = Some True"
    by code_simp
  have o3: "valueAt ''o'' (evaluate nandLibrary (nandCircuit False True)) = Some True"
    by code_simp
  have o4: "valueAt ''o'' (evaluate nandLibrary (nandCircuit False False)) = Some True"
    by code_simp
  from n1 n2 n3 n4 o1 o2 o3 o4 show ?thesis by blast
qed

section \<open>Gate values in a pass\<close>

lemma endpoint_eq: "(e = port g p) = (gateId e = g \<and> portIndex e = p)"
  for e :: Endpoint
  by (cases e) (auto simp: port_def)

lemma find_SomeD: "find P xs = Some x \<Longrightarrow> P x \<and> x \<in> set xs"
  by (induction xs) (auto split: if_splits)

lemma find_filter_unique:
  assumes "fanInOk ws" "w \<in> set ws" "gateId (wire_to w) = gid" "portIndex (wire_to w) = i"
  shows "find (\<lambda>w'. portIndex (wire_to w') = i) (filter (\<lambda>w'. gateId (wire_to w') = gid) ws) = Some w"
proof -
  let ?fs = "filter (\<lambda>w'. gateId (wire_to w') = gid) ws"
  from assms have "w \<in> set ?fs" by simp
  with assms(4) have "find (\<lambda>w'. portIndex (wire_to w') = i) ?fs \<noteq> None"
    by (auto simp: find_None_iff)
  then obtain w' where w': "find (\<lambda>w'. portIndex (wire_to w') = i) ?fs = Some w'" by blast
  from find_SomeD[OF this]
  have "w' \<in> set ws" "gateId (wire_to w') = gid" "portIndex (wire_to w') = i"
    by auto
  moreover from assms(1) have "inj_on (\<lambda>w. (gateId (wire_to w), portIndex (wire_to w))) (set ws)"
    by (simp add: fanInOk_def distinct_map)
  ultimately have "w' = w" using assms(2-4) by (auto dest: inj_onD)
  with w' show ?thesis by simp
qed

lemma inputSlot_driver:
  assumes "fanInOk ws" "w \<in> set ws" "gateId (wire_to w) = gid" "portIndex (wire_to w) = i"
  shows "inputSlot cur (filter (\<lambda>w'. gateId (wire_to w') = gid) ws) i = wireValue cur w"
  by (simp add: inputSlot_def find_filter_unique[OF assms])

lemma inputSlot_open:
  assumes "\<forall>w\<in>set ws. \<not> (gateId (wire_to w) = gid \<and> portIndex (wire_to w) = i)"
  shows "\<not> inputSlot cur (filter (\<lambda>w'. gateId (wire_to w') = gid) ws) i"
proof -
  from assms have "find (\<lambda>w'. portIndex (wire_to w') = i) (filter (\<lambda>w'. gateId (wire_to w') = gid) ws) = None"
    by (auto simp: find_None_iff)
  then show ?thesis by (simp add: inputSlot_def)
qed

lemma two_wires_length:
  assumes "w0 \<in> set ws" "w1 \<in> set ws" "gateId (wire_to w0) = gid" "gateId (wire_to w1) = gid"
    "portIndex (wire_to w0) \<noteq> portIndex (wire_to w1)"
  shows "2 \<le> length (filter (\<lambda>w'. gateId (wire_to w') = gid) ws)"
proof -
  let ?fs = "filter (\<lambda>w'. gateId (wire_to w') = gid) ws"
  from assms have sub: "{w0, w1} \<subseteq> set ?fs" and ne: "w0 \<noteq> w1" by auto
  have "card {w0, w1} \<le> card (set ?fs)" by (rule card_mono[OF _ sub]) simp
  moreover from ne have "card {w0, w1} = 2" by simp
  ultimately show ?thesis using card_length[of ?fs] by linarith
qed

lemma one_wire_length:
  assumes "w0 \<in> set ws" "gateId (wire_to w0) = gid"
  shows "1 \<le> length (filter (\<lambda>w'. gateId (wire_to w') = gid) ws)"
proof -
  from assms have "w0 \<in> set (filter (\<lambda>w'. gateId (wire_to w') = gid) ws)" by simp
  then show ?thesis by (cases "filter (\<lambda>w'. gateId (wire_to w') = gid) ws") auto
qed

lemma simGate_value:
  assumes "simGate lib ws cur g = Inr (g', c)" "gate_type g \<noteq> INPUT" "numInputs lib g = Inr n"
    "gate_type g = OUTPUT \<or> n \<le> length (filter (\<lambda>w. gateId (wire_to w) = gate_id g) ws)"
  shows "gate_value g' = newValue (gate_type g)
           (map (inputSlot cur (filter (\<lambda>w. gateId (wire_to w) = gate_id g) ws)) [0..<n])"
proof -
  from assms have "setValue g (newValue (gate_type g)
           (map (inputSlot cur (filter (\<lambda>w. gateId (wire_to w) = gate_id g) ws)) [0..<n])) = (g', c)"
    by (auto simp: simGate_def Let_def)
  from setValue_shape[OF this] show ?thesis
    by (metis Gate.select_convs(4) Gate.surjective Gate.update_convs(4))
qed

lemma upt_2: "[0..<2] = [0, Suc 0]"
  by (simp add: numeral_2_eq_2)

text \<open>
  Let the wire list have at most one wire per destination port. In a pass of
  the flat engine, an AND gate whose ports 0 and 1 are wired takes the conjunction of the
  values its two wires carry, an OR gate their disjunction, a NOT gate whose port 0 is
  wired the negation of the value on that wire, an OUTPUT gate the value of its driver,
  and an OUTPUT gate with no wire into port 0 the value false. The wire values are read
  from the gate list the pass started with; ids and kinds of gates do not change.
\<close>

lemma simPass_gate_values:
  assumes "simPass customGates wireList cur = Inr (nxt, changed)"
    and "fanInOk wireList"
    and "i < length cur"
  shows "gate_id (nxt ! i) = gate_id (cur ! i) \<and> gate_type (nxt ! i) = gate_type (cur ! i)
    \<and> (\<forall>w0 w1. gate_type (cur ! i) = AND
          \<and> w0 \<in> set wireList \<and> wire_to w0 = port (gate_id (cur ! i)) 0
          \<and> w1 \<in> set wireList \<and> wire_to w1 = port (gate_id (cur ! i)) 1
          \<longrightarrow> gate_value (nxt ! i) = (wireValue cur w0 \<and> wireValue cur w1))
    \<and> (\<forall>w0 w1. gate_type (cur ! i) = OR
          \<and> w0 \<in> set wireList \<and> wire_to w0 = port (gate_id (cur ! i)) 0
          \<and> w1 \<in> set wireList \<and> wire_to w1 = port (gate_id (cur ! i)) 1
          \<longrightarrow> gate_value (nxt ! i) = (wireValue cur w0 \<or> wireValue cur w1))
    \<and> (\<forall>w0. gate_type (cur ! i) = NOT
          \<and> w0 \<in> set wireList \<and> wire_to w0 = port (gate_id (cur ! i)) 0
          \<longrightarrow> gate_value (nxt ! i) = (\<not> wireValue cur w0))
    \<and> (\<forall>w0. gate_type (cur ! i) = OUTPUT
          \<and> w0 \<in> set wireList \<and> wire_to w0 = port (gate_id (cur ! i)) 0
          \<longrightarrow> gate_value (nxt ! i) = wireValue cur w0)
    \<and> (gate_type (cur ! i) = OUTPUT
          \<and> (\<forall>w\<in>set wireList. wire_to w \<noteq> port (gate_id (cur ! i)) 0)
          \<longrightarrow> \<not> gate_value (nxt ! i))"
proof -
  let ?g = "cur ! i"
  let ?fs = "filter (\<lambda>w. gateId (wire_to w) = gate_id ?g) wireList"
  from simPass_nth[OF assms(1,3)] obtain c
    where step: "simGate customGates wireList cur ?g = Inr (nxt ! i, c)" by blast
  have drv: "inputSlot cur ?fs p = wireValue cur w"
    if "w \<in> set wireList" "wire_to w = port (gate_id ?g) p" for w p
    using that by (intro inputSlot_driver[OF assms(2)]) (simp_all add: endpoint_eq)
  have len2: "2 \<le> length ?fs"
    if "w0 \<in> set wireList" "wire_to w0 = port (gate_id ?g) 0"
       "w1 \<in> set wireList" "wire_to w1 = port (gate_id ?g) 1" for w0 w1
    using that by (intro two_wires_length[of w0 _ w1]) (simp_all add: endpoint_eq)
  have len1: "1 \<le> length ?fs"
    if "w0 \<in> set wireList" "wire_to w0 = port (gate_id ?g) 0" for w0
    using that by (intro one_wire_length[of w0]) (simp_all add: endpoint_eq)
  have "gate_value (nxt ! i) = (wireValue cur w0 \<and> wireValue cur w1)"
    if "gate_type ?g = AND" "w0 \<in> set wireList" "wire_to w0 = port (gate_id ?g) 0"
       "w1 \<in> set wireList" "wire_to w1 = port (gate_id ?g) 1" for w0 w1
    using simGate_value[OF step, of 2] that len2[OF that(2-5)] drv[OF that(2,3)] drv[OF that(4,5)]
    by (simp add: numInputs_def newValue_def upt_2)
  moreover have "gate_value (nxt ! i) = (wireValue cur w0 \<or> wireValue cur w1)"
    if "gate_type ?g = OR" "w0 \<in> set wireList" "wire_to w0 = port (gate_id ?g) 0"
       "w1 \<in> set wireList" "wire_to w1 = port (gate_id ?g) 1" for w0 w1
    using simGate_value[OF step, of 2] that len2[OF that(2-5)] drv[OF that(2,3)] drv[OF that(4,5)]
    by (simp add: numInputs_def newValue_def upt_2)
  moreover have "gate_value (nxt ! i) = (\<not> wireValue cur w0)"
    if "gate_type ?g = NOT" "w0 \<in> set wireList" "wire_to w0 = port (gate_id ?g) 0" for w0
    using simGate_value[OF step, of 1] that len1[OF that(2,3)] drv[OF that(2,3)]
    by (simp add: numInputs_def newValue_def)
  moreover have "gate_value (nxt ! i) = wireValue cur w0"
    if "gate_type ?g = OUTPUT" "w0 \<in> set wireList" "wire_to w0 = port (gate_id ?g) 0" for w0
    using simGate_value[OF step, of 1] that drv[OF that(2,3)]
    by (simp add: numInputs_def newValue_def)
  moreover have "\<not> gate_value (nxt ! i)"
    if "gate_type ?g = OUTPUT" "\<forall>w\<in>set wireList. wire_to w \<noteq> port (gate_id ?g) 0"
  proof -
    from that(2) have "\<forall>w\<in>set wireList. \<not> (gateId (wire_to w) = gate_id ?g \<and> portIndex (wire_to w) = 0)"
      by (simp add: endpoint_eq)
    from inputSlot_open[OF this] simGate_value[OF step, of 1] that(1)
    show ?thesis by (simp add: numInputs_def newValue_def)
  qed
  ultimately show ?thesis using simGate_id[OF step] simGate_type[OF step] by blast
qed

text \<open>
  One pass over the circuit of all gate kinds with both inputs on. The OUTPUT gate behind
  the AND gate still reads the AND gate's value from before the pass.
\<close>

lemma simPass_gate_values_example:
  "simPass Map.empty (wires (truthCircuit True True)) (gates (truthCircuit True True))
     = Inr (passGates (simPass Map.empty (wires (truthCircuit True True))
                         (gates (truthCircuit True True))), True)
   \<and> fanInOk (wires (truthCircuit True True))
   \<and> map gate_type (gates (truthCircuit True True)) = [INPUT, INPUT, AND, OR, NOT, OUTPUT, OUTPUT]
   \<and> map (wireValue (gates (truthCircuit True True))) (wires (truthCircuit True True))
        = [True, True, True, True, True, False]
   \<and> map gate_value (passGates (simPass Map.empty (wires (truthCircuit True True))
                         (gates (truthCircuit True True))))
        = [True, True, True, True, False, False, False]"
proof -
  define ws where "ws = wires (truthCircuit True True)"
  define cur where "cur = gates (truthCircuit True True)"
  define nxt where "nxt = passGates (simPass Map.empty ws cur)"
  have a: "simPass Map.empty ws cur = Inr (nxt, True)"
    unfolding ws_def cur_def nxt_def by code_simp
  have b: "fanInOk ws" unfolding ws_def by code_simp
  have len: "length cur = 7" unfolding cur_def by code_simp
  have ty: "map gate_type cur = [INPUT, INPUT, AND, OR, NOT, OUTPUT, OUTPUT]"
    unfolding cur_def by code_simp
  have wv: "map (wireValue cur) ws = [True, True, True, True, True, False]"
    unfolding ws_def cur_def by code_simp
  have wlen: "length ws = 6" unfolding ws_def by code_simp
  have to: "map wire_to ws = [port (gate_id (cur ! 2)) 0, port (gate_id (cur ! 2)) 1,
      port (gate_id (cur ! 3)) 0, port (gate_id (cur ! 3)) 1,
      port (gate_id (cur ! 4)) 0, port (gate_id (cur ! 5)) 0]"
    unfolding ws_def cur_def by code_simp
  have opn: "\<forall>w\<in>set ws. wire_to w \<noteq> port (gate_id (cur ! 6)) 0"
    unfolding ws_def cur_def by code_simp
  have nlen: "length nxt = 7" using simPass_length[OF a] len by simp
  have mem: "ws ! k \<in> set ws" if "k < 6" for k using that wlen by simp
  have tok: "wire_to (ws ! k) = map wire_to ws ! k" if "k < 6" for k using that wlen by simp
  have wvk: "wireValue cur (ws ! k) = map (wireValue cur) ws ! k" if "k < 6" for k
    using that wlen by simp
  have tyk: "gate_type (cur ! k) = map gate_type cur ! k" if "k < 7" for k using that len by simp
  have v2: "gate_value (nxt ! 2)"
    using simPass_gate_values[OF a b, of 2] len tyk[of 2] mem[of 0] mem[of 1] tok[of 0] tok[of 1]
      wvk[of 0] wvk[of 1]
    unfolding ty to wv by simp
  have v3: "gate_value (nxt ! 3)"
    using simPass_gate_values[OF a b, of 3] len tyk[of 3] mem[of 2] mem[of 3] tok[of 2] tok[of 3]
      wvk[of 2] wvk[of 3]
    unfolding ty to wv by simp
  have v4: "\<not> gate_value (nxt ! 4)"
    using simPass_gate_values[OF a b, of 4] len tyk[of 4] mem[of 4] tok[of 4] wvk[of 4]
    unfolding ty to wv by simp
  have v5: "\<not> gate_value (nxt ! 5)"
    using simPass_gate_values[OF a b, of 5] len tyk[of 5] mem[of 5] tok[of 5] wvk[of 5]
    unfolding ty to wv by simp
  have v6: "\<not> gate_value (nxt ! 6)"
    using simPass_gate_values[OF a b, of 6] len tyk[of 6] opn
    unfolding ty by simp
  have v01: "gate_value (nxt ! 0)" "gate_value (nxt ! 1)"
    unfolding ws_def cur_def nxt_def by code_simp+
  have "map gate_value nxt = [True, True, True, True, False, False, False]"
    using nlen v01 v2 v3 v4 v5 v6
    by (intro nth_equalityI) (auto simp: less_Suc_eq numeral_eq_Suc)
  with a b ty wv show ?thesis unfolding ws_def cur_def nxt_def by blast
qed

text \<open>
  The truth tables at the level of a whole evaluation: for each of the four input
  combinations, the values of the AND, OR and NOT gate, of the OUTPUT gate behind the AND
  gate and of the unwired OUTPUT gate.
\<close>

lemma truth_tables:
  "map (\<lambda>i. valueAt i (evaluate Map.empty (truthCircuit False False)))
       [''and'', ''or'', ''not'', ''out'', ''open'']
     = [Some False, Some False, Some True, Some False, Some False]
   \<and> map (\<lambda>i. valueAt i (evaluate Map.empty (truthCircuit False True)))
       [''and'', ''or'', ''not'', ''out'', ''open'']
     = [Some False, Some True, Some True, Some False, Some False]
   \<and> map (\<lambda>i. valueAt i (evaluate Map.empty (truthCircuit True False)))
       [''and'', ''or'', ''not'', ''out'', ''open'']
     = [Some False, Some True, Some False, Some False, Some False]
   \<and> map (\<lambda>i. valueAt i (evaluate Map.empty (truthCircuit True True)))
       [''and'', ''or'', ''not'', ''out'', ''open'']
     = [Some True, Some True, Some False, Some True, Some False]"
  by code_simp

section \<open>When evaluation throws\<close>

lemma error_is_TypeError: "e = TypeError"
  by (cases e) simp

lemma simGate_signature:
  assumes "simGate lib ws cur g = Inr (g', c)"
  shows "signature g' = signature g"
proof -
  from simGate_shape[OF assms] have "g' = g\<lparr>gate_value := gate_value g'\<rparr>" by simp
  then have "signature g' = signature (g\<lparr>gate_value := gate_value g'\<rparr>)" by simp
  then show ?thesis by (simp add: signature_def)
qed

lemma numInputs_defined:
  "(\<not> isl (numInputs lib g)) = templatePresent lib (gate_type g) (customGateName g)"
  by (cases "gate_type g")
     (auto simp: numInputs_def templatePresent_def split: option.splits TemplateLookup.splits)

lemma simGate_defined:
  "(\<not> isl (simGate lib ws cur g)) = templatePresent lib (gate_type g) (customGateName g)"
proof (cases "gate_type g = INPUT")
  case True
  then show ?thesis by (simp add: simGate_def templatePresent_def)
next
  case False
  show ?thesis
  proof (cases "numInputs lib g")
    case (Inl e)
    with False numInputs_defined[of lib g] show ?thesis by (simp add: simGate_def)
  next
    case (Inr n)
    with False numInputs_defined[of lib g] show ?thesis by (simp add: simGate_def Let_def)
  qed
qed

lemma mapE_defined: "(\<not> isl (mapE f xs)) = (\<forall>x\<in>set xs. \<not> isl (f x))"
  by (induction xs) (auto split: sum.splits)

lemma simPass_defined:
  "(\<not> isl (simPass lib ws cur))
     = (\<forall>g\<in>set cur. templatePresent lib (gate_type g) (customGateName g))"
proof -
  have "(\<not> isl (simPass lib ws cur)) = (\<not> isl (mapE (simGate lib ws cur) cur))"
    by (cases "mapE (simGate lib ws cur) cur") (simp_all add: simPass_def)
  then show ?thesis by (simp add: mapE_defined simGate_defined)
qed

lemma simPass_signature:
  assumes "simPass lib ws cur = Inr (nxt, ch)"
  shows "map signature nxt = map signature cur"
proof -
  have "signature (nxt ! i) = signature (cur ! i)" if "i < length cur" for i
    using simPass_nth[OF assms that] simGate_signature by blast
  with simPass_length[OF assms] show ?thesis by (simp add: list_eq_iff_nth_eq)
qed

lemma present_cong:
  assumes "map signature nxt = map signature cur"
  shows "(\<forall>g\<in>set nxt. P (gate_type g) (customGateName g))
       = (\<forall>g\<in>set cur. P (gate_type g) (customGateName g))"
proof -
  from assms have len: "length nxt = length cur" by (rule map_eq_imp_length_eq)
  have "gate_type (nxt ! i) = gate_type (cur ! i) \<and> customGateName (nxt ! i) = customGateName (cur ! i)"
    if "i < length cur" for i
  proof -
    from that len assms have "signature (nxt ! i) = signature (cur ! i)" by (metis nth_map)
    then show ?thesis by (simp add: signature_def)
  qed
  with len show ?thesis by (simp add: all_set_conv_all_nth)
qed

lemma simLoop_defined:
  "(\<not> isl (simLoop lib ws it cur))
     = (\<forall>g\<in>set cur. templatePresent lib (gate_type g) (customGateName g))"
proof (induction lib ws it cur rule: simLoop.induct)
  case (1 lib ws it cur)
  show ?case
  proof (cases "simPass lib ws cur")
    case (Inl e)
    with simPass_defined[of lib ws cur] show ?thesis
      by (simp add: simLoop.simps[of lib ws it cur])
  next
    case (Inr p)
    obtain nxt ch where p: "p = (nxt, ch)" by (cases p)
    from Inr simPass_defined[of lib ws cur]
    have cur: "\<forall>g\<in>set cur. templatePresent lib (gate_type g) (customGateName g)" by simp
    show ?thesis
    proof (cases "ch \<and> Suc it < MAX_ITERATIONS")
      case True
      from simPass_signature[OF Inr[unfolded p]] cur
      have "\<forall>g\<in>set nxt. templatePresent lib (gate_type g) (customGateName g)"
        using present_cong[of nxt cur "templatePresent lib"] by simp
      with "1.IH"[OF Inr[unfolded p] refl] True cur Inr p show ?thesis
        by (simp add: simLoop.simps[of lib ws it cur])
    next
      case False
      with cur Inr p show ?thesis by (auto simp: simLoop.simps[of lib ws it cur])
    qed
  qed
qed

lemma runSimulation_defined:
  "(\<not> isl (runSimulation lib gs ws))
     = (\<forall>g\<in>set gs. templatePresent lib (gate_type g) (customGateName g))"
  by (simp add: runSimulation_def simLoop_defined)

lemma simLoop_signature:
  "simLoop lib ws it cur = Inr r \<Longrightarrow>
     map signature r = map signature cur"
proof (induction lib ws it cur rule: simLoop.induct)
  case (1 lib ws it cur)
  show ?case
  proof (cases "simPass lib ws cur")
    case (Inl e)
    with "1.prems" show ?thesis by (simp add: simLoop.simps[of lib ws it cur])
  next
    case (Inr p)
    obtain nxt ch where p: "p = (nxt, ch)" by (cases p)
    note sig = simPass_signature[OF Inr[unfolded p]]
    show ?thesis
    proof (cases "ch \<and> Suc it < MAX_ITERATIONS")
      case True
      with "1.prems" Inr p have "simLoop lib ws (Suc it) nxt = Inr r"
        by (simp add: simLoop.simps[of lib ws it cur])
      from "1.IH"[OF Inr[unfolded p] refl True this] sig show ?thesis by simp
    next
      case False
      with "1.prems" Inr p have "r = nxt" by (auto simp: simLoop.simps[of lib ws it cur])
      with sig show ?thesis by simp
    qed
  qed
qed

lemma runSimulation_signature:
  "runSimulation lib gs ws = Inr r \<Longrightarrow>
     map signature r = map signature gs"
  unfolding runSimulation_def by (rule simLoop_signature)

lemma seedValue_signature:
  "map signature (seedValue oid v gs) = map signature gs"
  by (induction gs) (auto simp: signature_def)

lemma seedInputs_signature:
  "map signature (seedInputs defs vs gs) = map signature gs"
proof -
  have "map signature (fold (\<lambda>(d, v) gs. seedValue (originalId d) v gs) ps gs)
          = map signature gs" for ps
    by (induction ps arbitrary: gs) (auto simp: seedValue_signature)
  then show ?thesis by (simp add: seedInputs_def)
qed

lemma inner_present:
  "(\<forall>g\<in>set (seedInputs defs vs (map instantiateGate tgs)).
       templatePresent lib (gate_type g) (customGateName g))
   = list_all (\<lambda>tg. templatePresent lib (tg_type tg) (tg_customGateName tg)) tgs"
proof -
  have "(\<forall>g\<in>set (seedInputs defs vs (map instantiateGate tgs)).
           templatePresent lib (gate_type g) (customGateName g))
      = (\<forall>g\<in>set (map instantiateGate tgs). templatePresent lib (gate_type g) (customGateName g))"
    using seedInputs_signature[of defs vs "map instantiateGate tgs"]
    by (intro present_cong) simp
  then show ?thesis by (simp add: list_all_iff instantiateGate_def)
qed

lemma expandGate_defined:
  "(\<not> isl (expandGate lib ws tempGates g))
     = (gate_type g = CUSTOM \<and> lookupTemplate lib (customGateName g) \<noteq> Undefined
         \<longrightarrow> templateUsable lib (gate_type g) (customGateName g))"
proof (cases "gate_type g = CUSTOM")
  case False
  then show ?thesis by (simp add: expandGate_def templateUsable_def)
next
  case True
  show ?thesis
  proof (cases "lookupTemplate lib (customGateName g)")
    case Undefined
    with True show ?thesis by (simp add: expandGate_def)
  next
    case Inherited
    with True show ?thesis by (simp add: expandGate_def templateUsable_def)
  next
    case (Template t)
    let ?inner = "seedInputs (t_inputs t) (map (liveInput tempGates ws g) [0..<length (t_inputs t)])
                    (map instantiateGate (t_gates t))"
    have "(\<not> isl (expandGate lib ws tempGates g))
            = (\<not> isl (runSimulation lib ?inner (map instantiateWire (t_wires t))))"
      using True Template
      by (cases "runSimulation lib ?inner (map instantiateWire (t_wires t))")
         (simp_all add: expandGate_def Let_def)
    also have "\<dots> = list_all (\<lambda>tg. templatePresent lib (tg_type tg) (tg_customGateName tg))
                          (t_gates t)"
      unfolding runSimulation_defined by (rule inner_present)
    also have "\<dots> = (gate_type g = CUSTOM \<and> lookupTemplate lib (customGateName g) \<noteq> Undefined
         \<longrightarrow> templateUsable lib (gate_type g) (customGateName g))"
      using True Template by (simp add: templateUsable_def)
    finally show ?thesis .
  qed
qed

lemma expandGate_cases:
  assumes "expandGate lib ws tempGates g = Inr (g', c)"
  shows "g' = g \<or> (\<exists>ivs ovs. g' = g\<lparr>inputValues := Some ivs, outputValues := Some ovs\<rparr>)"
proof (cases "gate_type g = CUSTOM")
  case False
  with assms show ?thesis by (simp add: expandGate_def)
next
  case True
  show ?thesis
  proof (cases "lookupTemplate lib (customGateName g)")
    case Undefined
    with True assms show ?thesis by (simp add: expandGate_def)
  next
    case Inherited
    with True assms show ?thesis by (simp add: expandGate_def)
  next
    case (Template t)
    let ?inner = "seedInputs (t_inputs t) (map (liveInput tempGates ws g) [0..<length (t_inputs t)])
                    (map instantiateGate (t_gates t))"
    show ?thesis
    proof (cases "runSimulation lib ?inner (map instantiateWire (t_wires t))")
      case (Inl e)
      with True Template assms show ?thesis by (simp add: expandGate_def Let_def)
    next
      case (Inr sim)
      with True Template assms show ?thesis by (simp add: expandGate_def Let_def) blast
    qed
  qed
qed

lemma expandGate_signature:
  assumes "expandGate lib ws tempGates g = Inr (g', c)"
  shows "signature g' = signature g \<and> gate_value g' = gate_value g"
  using expandGate_cases[OF assms]
proof
  assume "g' = g"
  then show ?thesis by simp
next
  assume "\<exists>ivs ovs. g' = g\<lparr>inputValues := Some ivs, outputValues := Some ovs\<rparr>"
  then obtain ivs ovs where "g' = g\<lparr>inputValues := Some ivs, outputValues := Some ovs\<rparr>"
    by blast
  then show ?thesis by (simp add: signature_def)
qed

lemma expandAll_Inr:
  assumes "expandAll lib ws cur = Inr (nxt, ch)"
  shows "length nxt = length cur
         \<and> (\<forall>i<length cur. \<exists>c. expandGate lib ws cur (cur ! i) = Inr (nxt ! i, c))"
proof -
  from assms obtain rs where rs: "mapE (expandGate lib ws cur) cur = Inr rs" "nxt = map fst rs"
    by (auto simp: expandAll_def split: sum.splits)
  have "\<exists>c. expandGate lib ws cur (cur ! i) = Inr (nxt ! i, c)" if "i < length cur" for i
    using mapE_nth[OF rs(1) that] mapE_length[OF rs(1)] that rs(2) by (cases "rs ! i") auto
  with mapE_length[OF rs(1)] rs(2) show ?thesis by simp
qed

lemma expandAll_signature:
  assumes "expandAll lib ws cur = Inr (nxt, ch)"
  shows "map signature nxt = map signature cur"
proof -
  have "signature (nxt ! i) = signature (cur ! i)" if "i < length cur" for i
    using expandAll_Inr[OF assms] that expandGate_signature by blast
  with expandAll_Inr[OF assms] show ?thesis by (simp add: list_eq_iff_nth_eq)
qed

lemma expandAll_defined:
  "(\<not> isl (expandAll lib ws cur))
     = (\<forall>g\<in>set cur. gate_type g = CUSTOM \<and> lookupTemplate lib (customGateName g) \<noteq> Undefined
                        \<longrightarrow> templateUsable lib (gate_type g) (customGateName g))"
proof -
  have "(\<not> isl (expandAll lib ws cur)) = (\<not> isl (mapE (expandGate lib ws cur) cur))"
    by (cases "mapE (expandGate lib ws cur) cur") (simp_all add: expandAll_def)
  then show ?thesis by (simp add: mapE_defined expandGate_defined)
qed

lemma usable_present:
  "templateUsable lib ty nm \<Longrightarrow> templatePresent lib ty nm"
  by (auto simp: templateUsable_def templatePresent_def split: TemplateLookup.splits)

lemma present_usable:
  "templatePresent lib ty nm \<Longrightarrow>
     (ty = CUSTOM \<and> lookupTemplate lib nm \<noteq> Undefined \<longrightarrow> templateUsable lib ty nm) \<Longrightarrow>
     templateUsable lib ty nm"
  by (auto simp: templateUsable_def templatePresent_def split: TemplateLookup.splits)

lemma unusable_custom:
  "\<not> templateUsable lib ty nm \<Longrightarrow> ty = CUSTOM"
  by (auto simp: templateUsable_def)

lemma mainRound_defined:
  "(\<not> isl (mainRound lib ws cur)) = allResolved lib cur"
proof (cases "expandAll lib ws cur")
  case (Inl e)
  then have "isl (expandAll lib ws cur)" by simp
  with expandAll_defined[of lib ws cur] obtain g where
    g: "g \<in> set cur" "\<not> templateUsable lib (gate_type g) (customGateName g)"
    by blast
  then have "\<not> allResolved lib cur"
    unfolding allResolved_def list_all_iff by blast
  moreover from Inl have "isl (mainRound lib ws cur)" by (simp add: mainRound_def)
  ultimately show ?thesis by simp
next
  case (Inr p)
  obtain nxt ch where p: "p = (nxt, ch)" by (cases p)
  from Inr expandAll_defined[of lib ws cur]
  have imp: "\<forall>g\<in>set cur. gate_type g = CUSTOM \<and> lookupTemplate lib (customGateName g) \<noteq> Undefined
                        \<longrightarrow> templateUsable lib (gate_type g) (customGateName g)" by simp
  have "(\<not> isl (mainRound lib ws cur)) = (\<not> isl (runSimulation lib nxt ws))"
    using Inr p by (cases "runSimulation lib nxt ws") (simp_all add: mainRound_def)
  also have "\<dots> = (\<forall>g\<in>set cur. templatePresent lib (gate_type g) (customGateName g))"
    using expandAll_signature[OF Inr[unfolded p]]
    by (simp add: runSimulation_defined present_cong[of nxt cur "templatePresent lib"])
  also have "\<dots> = allResolved lib cur"
    unfolding allResolved_def list_all_iff using imp usable_present present_usable by blast
  finally show ?thesis .
qed

lemma mainRound_signature:
  assumes "mainRound lib ws cur = Inr (r, ch)"
  shows "map signature r = map signature cur"
proof -
  from mainRound_Inr[OF assms] obtain nxt
    where "expandAll lib ws cur = Inr (nxt, ch)" "runSimulation lib nxt ws = Inr r" by blast
  with expandAll_signature[of lib ws cur nxt ch] runSimulation_signature[of lib nxt ws r]
  show ?thesis by simp
qed

lemma allResolved_cong:
  assumes "map signature r = map signature cur"
  shows "allResolved lib r = allResolved lib cur"
  unfolding allResolved_def list_all_iff
  using present_cong[OF assms, of "templateUsable lib"] .

lemma mainLoop_defined:
  "(\<not> isl (mainLoop lib ws it cur)) = allResolved lib cur"
proof (induction lib ws it cur rule: mainLoop.induct)
  case (1 lib ws it cur)
  show ?case
  proof (cases "mainRound lib ws cur")
    case (Inl e)
    with mainRound_defined[of lib ws cur] show ?thesis
      by (simp add: mainLoop.simps[of lib ws it cur])
  next
    case (Inr p)
    obtain nxt ch where p: "p = (nxt, ch)" by (cases p)
    from Inr mainRound_defined[of lib ws cur] have cur: "allResolved lib cur" by simp
    show ?thesis
    proof (cases "ch \<and> Suc it < 10")
      case True
      from mainRound_signature[OF Inr[unfolded p]] cur
      have "allResolved lib nxt" using allResolved_cong[of nxt cur lib] by simp
      with "1.IH"[OF Inr[unfolded p] refl] True cur Inr p show ?thesis
        by (simp add: mainLoop.simps[of lib ws it cur])
    next
      case False
      with cur Inr p show ?thesis by (auto simp: mainLoop.simps[of lib ws it cur])
    qed
  qed
qed

lemma evaluate_throws_iff:
  "(evaluate lib s = Inl TypeError) = (\<not> allResolved lib (gates s))"
proof (cases "mainLoop lib (wires s) 0 (gates s)")
  case (Inl e)
  with mainLoop_defined[of lib "wires s" 0 "gates s"] error_is_TypeError[of e]
  show ?thesis by (simp add: evaluate_def)
next
  case (Inr r)
  with mainLoop_defined[of lib "wires s" 0 "gates s"]
  show ?thesis by (simp add: evaluate_def)
qed

lemma mainLoop_signature:
  "mainLoop lib ws it cur = Inr r \<Longrightarrow> map signature r = map signature cur"
proof (induction lib ws it cur rule: mainLoop.induct)
  case (1 lib ws it cur)
  show ?case
  proof (cases "mainRound lib ws cur")
    case (Inl e)
    with "1.prems" show ?thesis by (simp add: mainLoop.simps[of lib ws it cur])
  next
    case (Inr p)
    obtain nxt ch where p: "p = (nxt, ch)" by (cases p)
    note sig = mainRound_signature[OF Inr[unfolded p]]
    show ?thesis
    proof (cases "ch \<and> Suc it < 10")
      case True
      with "1.prems" Inr p have "mainLoop lib ws (Suc it) nxt = Inr r"
        by (simp add: mainLoop.simps[of lib ws it cur])
      from "1.IH"[OF Inr[unfolded p] refl True this] sig show ?thesis by simp
    next
      case False
      with "1.prems" Inr p have "r = nxt" by (auto simp: mainLoop.simps[of lib ws it cur])
      with sig show ?thesis by simp
    qed
  qed
qed

text \<open>
  Evaluation throws exactly when some CUSTOM gate of the circuit, or some CUSTOM gate
  inside the template of one, names a template that the library does not hold. The wire
  list plays no part in that. When evaluation returns, the gates are the same gates, in
  the same order, with the same ids and kinds.
\<close>

lemma evaluate_returns:
  assumes "allResolved lib (gates s)"
  shows "\<exists>r. evaluate lib s = Inr (s\<lparr>gates := r\<rparr>) \<and> map signature r = map signature (gates s)"
proof (cases "mainLoop lib (wires s) 0 (gates s)")
  case (Inl e)
  with assms mainLoop_defined[of lib "wires s" 0 "gates s"] show ?thesis by simp
next
  case (Inr r)
  then have "evaluate lib s = Inr (s\<lparr>gates := r\<rparr>)" by (simp add: evaluate_def)
  with mainLoop_signature[OF Inr] show ?thesis by blast
qed

section \<open>Composite gates without a template\<close>

text \<open>
  Claim C4 fails on the source: with the NAND template deleted, the evaluation of the
  circuit that holds a NAND instance throws. The expander skips the instance, but
  runSimulation reads \<^verbatim>\<open>GATE_DIMENSIONS['CUSTOM'].inputs\<close>.
\<close>

theorem deleted_template_throws:
  "evaluate emptiedLibrary (nandCircuit True True) = Inl TypeError"
  by code_simp

text \<open>
  Feedback alone is harmless: the NOT gate wired to itself comes back after fifty passes
  holding the value it started with.
\<close>

lemma notLoop_returns:
  "evaluate Map.empty (notLoop False) = Inr (notLoop False)
   \<and> evaluate Map.empty (notLoop True) = Inr (notLoop True)"
  by code_simp

text \<open>
  Claim C6 fails on the source, by the defect of C4. Whatever else the circuit holds, one
  CUSTOM gate whose name does not lead to a stored template makes the evaluation throw:
  no circuit is returned, so the gate is not treated as inert.
\<close>

theorem missing_template_throws:
  assumes "g \<in> set (gates s)"
    and "gate_type g = CUSTOM"
    and "\<forall>t. lookupTemplate customGates (customGateName g) \<noteq> Template t"
  shows "evaluate customGates s = Inl TypeError"
proof -
  from assms(2,3) have "\<not> templateUsable customGates (gate_type g) (customGateName g)"
    by (auto simp: templateUsable_def split: TemplateLookup.splits)
  with assms(1) have "\<not> allResolved customGates (gates s)"
    unfolding allResolved_def list_all_iff by blast
  then show ?thesis by (simp add: evaluate_throws_iff)
qed

text \<open>
  The settled NAND circuit with inputs (true, false) loses its template. The expander
  sweep alone would keep the instance as it is, its output array still \<open>[True]\<close> and no
  further round asked for, but the runSimulation call that follows throws.
\<close>

theorem missing_template_throws_witness:
  "map gate_type (gates (nandSettled True False)) = [INPUT, INPUT, CUSTOM, OUTPUT]
   \<and> lookupTemplate emptiedLibrary (customGateName (gates (nandSettled True False) ! 2))
       = Undefined
   \<and> outputsAt ''n'' (Inr (nandSettled True False)) = Some [True]
   \<and> expandAll emptiedLibrary (wires (nandSettled True False)) (gates (nandSettled True False))
       = Inr (gates (nandSettled True False), False)
   \<and> evaluate emptiedLibrary (nandSettled True False) = Inl TypeError"
proof -
  define s where "s = nandSettled True False"
  have ty: "map gate_type (gates s) = [INPUT, INPUT, CUSTOM, OUTPUT]"
    unfolding s_def by code_simp
  have lk: "lookupTemplate emptiedLibrary (customGateName (gates s ! 2)) = Undefined"
    unfolding s_def by code_simp
  have ov: "outputsAt ''n'' (Inr s) = Some [True]" unfolding s_def by code_simp
  have ex: "expandAll emptiedLibrary (wires s) (gates s) = Inr (gates s, False)"
    unfolding s_def by code_simp
  from ty have "length (map gate_type (gates s)) = 4" by simp
  then have len: "length (gates s) = 4" by simp
  then have mem: "gates s ! 2 \<in> set (gates s)" by simp
  from len have "gate_type (gates s ! 2) = map gate_type (gates s) ! 2" by simp
  with ty have c: "gate_type (gates s ! 2) = CUSTOM" by simp
  from lk have "\<forall>t. lookupTemplate emptiedLibrary (customGateName (gates s ! 2)) \<noteq> Template t"
    by simp
  from missing_template_throws[OF mem c this]
  have "evaluate emptiedLibrary s = Inl TypeError" .
  with ty lk ov ex show ?thesis unfolding s_def by blast
qed

text \<open>
  A composite gate named after a key that every object inherits: the lookup is truthy,
  the expander goes past its guard and throws on \<^verbatim>\<open>template.inputs\<close>.
\<close>

lemma inherited_key_throws:
  "lookupTemplate Map.empty (Some ''constructor'') = Inherited
   \<and> expandAll Map.empty (wires inheritedNameCircuit) (gates inheritedNameCircuit)
       = Inl TypeError
   \<and> evaluate Map.empty inheritedNameCircuit = Inl TypeError"
  by code_simp

section \<open>Wires without a source gate\<close>

lemma wireValue_dangling:
  assumes "\<forall>g\<in>set gs. gate_id g \<noteq> gateId (wire_from w)"
  shows "\<not> wireValue gs w"
proof -
  from assms have "find (\<lambda>fg. gate_id fg = gateId (wire_from w)) gs = None"
    by (simp add: find_None_iff)
  then show ?thesis by (simp add: wireValue_def)
qed

text \<open>
  Claim C10 fails on the source, by the defect of C4: the circuit whose wires start at a
  gate that does not exist is evaluated without an exception while the NAND template is
  in the library, every dangling wire reading false, and throws once the template is
  gone.
\<close>

theorem dangling_circuit_throws:
  "evaluate emptiedLibrary danglingCircuit = Inl TypeError
   \<and> outputsAt ''n'' (evaluate nandLibrary danglingCircuit) = Some [True]
   \<and> valueAt ''o'' (evaluate nandLibrary danglingCircuit) = Some False"
  by code_simp

section \<open>The stopping condition of the main loop\<close>

declare mainLoopSpec.simps [simp del]

lemma ports_update_eq:
  "(g\<lparr>inputValues := Some ivs, outputValues := Some ovs\<rparr> = g)
     = (inputValues g = Some ivs \<and> outputValues g = Some ovs)"
proof
  assume eq: "g\<lparr>inputValues := Some ivs, outputValues := Some ovs\<rparr> = g"
  then have "inputValues (g\<lparr>inputValues := Some ivs, outputValues := Some ovs\<rparr>) = inputValues g"
    "outputValues (g\<lparr>inputValues := Some ivs, outputValues := Some ovs\<rparr>) = outputValues g"
    by simp_all
  then show "inputValues g = Some ivs \<and> outputValues g = Some ovs" by simp
next
  assume "inputValues g = Some ivs \<and> outputValues g = Some ovs"
  then show "g\<lparr>inputValues := Some ivs, outputValues := Some ovs\<rparr> = g" by auto
qed

lemma expandGate_flag:
  assumes "expandGate lib ws tempGates g = Inr (g', c)"
  shows "c = (g' \<noteq> g)"
proof (cases "gate_type g = CUSTOM")
  case False
  with assms show ?thesis by (auto simp: expandGate_def)
next
  case True
  show ?thesis
  proof (cases "lookupTemplate lib (customGateName g)")
    case Undefined
    with True assms show ?thesis by (auto simp: expandGate_def)
  next
    case Inherited
    with True assms show ?thesis by (simp add: expandGate_def)
  next
    case (Template t)
    let ?inner = "seedInputs (t_inputs t) (map (liveInput tempGates ws g) [0..<length (t_inputs t)])
                    (map instantiateGate (t_gates t))"
    show ?thesis
    proof (cases "runSimulation lib ?inner (map instantiateWire (t_wires t))")
      case (Inl e)
      with True Template assms show ?thesis by (simp add: expandGate_def Let_def)
    next
      case (Inr sim)
      with True Template assms show ?thesis
        by (simp add: expandGate_def Let_def) (metis ports_update_eq)
    qed
  qed
qed

lemma expandAll_flag:
  assumes "expandAll lib ws cur = Inr (nxt, ch)"
  shows "ch = (nxt \<noteq> cur)"
proof -
  from assms obtain rs where rs: "mapE (expandGate lib ws cur) cur = Inr rs"
    "nxt = map fst rs" "ch = list_ex snd rs"
    by (auto simp: expandAll_def split: sum.splits)
  note len = mapE_length[OF rs(1)]
  have el: "snd (rs ! i) = (fst (rs ! i) \<noteq> cur ! i)" if "i < length cur" for i
    using mapE_nth[OF rs(1) that] expandGate_flag[of lib ws cur "cur ! i" "fst (rs ! i)" "snd (rs ! i)"]
    by simp
  have "ch = (\<exists>i<length rs. snd (rs ! i))"
    unfolding rs(3) list_ex_iff by (metis in_set_conv_nth)
  then have "ch = (\<exists>i<length cur. snd (rs ! i))" using len by simp
  also have "\<dots> = (\<exists>i<length cur. nxt ! i \<noteq> cur ! i)"
    using el rs(2) len by auto
  also have "\<dots> = (nxt \<noteq> cur)"
    using rs(2) len by (auto simp: list_eq_iff_nth_eq)
  finally show ?thesis .
qed

lemma sweepChanges_flag:
  "expandAll lib ws cur = Inr (nxt, ch) \<Longrightarrow> sweepChanges lib ws cur = ch"
  using expandAll_flag[of lib ws cur nxt ch] by (simp add: sweepChanges_def)

lemma afterRounds_Suc:
  assumes "mainRound lib ws cur = Inr (nxt, ch)"
  shows "afterRounds lib ws (Suc n) cur = afterRounds lib ws n nxt"
proof -
  from mainRound_Inr[OF assms] obtain swept
    where "expandAll lib ws cur = Inr (swept, ch)" "runSimulation lib swept ws = Inr nxt" by blast
  then show ?thesis by simp
qed

lemma mainRound_sweepChanges:
  assumes "mainRound lib ws cur = Inr (nxt, ch)"
  shows "sweepChanges lib ws cur = ch"
proof -
  from mainRound_Inr[OF assms] obtain swept
    where "expandAll lib ws cur = Inr (swept, ch)" by blast
  then show ?thesis by (rule sweepChanges_flag)
qed

lemma mainLoop_rounds:
  "mainLoop lib ws it cur = Inr r \<Longrightarrow> it < 10 \<Longrightarrow>
     \<exists>n. 0 < n \<and> it + n \<le> 10 \<and> afterRounds lib ws n cur = Inr r
        \<and> (\<forall>k. Suc k < n \<longrightarrow> (\<exists>g. afterRounds lib ws k cur = Inr g \<and> sweepChanges lib ws g))
        \<and> (it + n < 10 \<longrightarrow> (\<exists>g. afterRounds lib ws (n - 1) cur = Inr g \<and> \<not> sweepChanges lib ws g))"
proof (induction lib ws it cur rule: mainLoop.induct)
  case (1 lib ws it cur)
  show ?case
  proof (cases "mainRound lib ws cur")
    case (Inl e)
    with "1.prems" show ?thesis by (simp add: mainLoop.simps[of lib ws it cur])
  next
    case (Inr p)
    obtain nxt ch where p: "p = (nxt, ch)" by (cases p)
    note round = Inr[unfolded p]
    note sw = mainRound_sweepChanges[OF round]
    note unroll = afterRounds_Suc[OF round]
    show ?thesis
    proof (cases "ch \<and> Suc it < 10")
      case True
      with "1.prems" round have "mainLoop lib ws (Suc it) nxt = Inr r"
        by (simp add: mainLoop.simps[of lib ws it cur])
      from "1.IH"[OF round refl True this] True obtain n
        where n: "0 < n" "Suc it + n \<le> 10" "afterRounds lib ws n nxt = Inr r"
          "\<forall>k. Suc k < n \<longrightarrow> (\<exists>g. afterRounds lib ws k nxt = Inr g \<and> sweepChanges lib ws g)"
          "Suc it + n < 10 \<longrightarrow> (\<exists>g. afterRounds lib ws (n - 1) nxt = Inr g \<and> \<not> sweepChanges lib ws g)"
        by blast
      have "\<exists>g. afterRounds lib ws k cur = Inr g \<and> sweepChanges lib ws g" if "Suc k < Suc n" for k
      proof (cases k)
        case 0
        with sw True show ?thesis by simp
      next
        case (Suc j)
        with that n(4) unroll[of j] show ?thesis by simp
      qed
      moreover have "\<exists>g. afterRounds lib ws (Suc n - 1) cur = Inr g \<and> \<not> sweepChanges lib ws g"
        if "it + Suc n < 10"
      proof -
        from n(1) obtain m where m: "n = Suc m" by (cases n) auto
        with that n(5) unroll[of m] show ?thesis by simp
      qed
      moreover have "afterRounds lib ws (Suc n) cur = Inr r" using n(3) unroll[of n] by simp
      ultimately show ?thesis using n(2) by (intro exI[of _ "Suc n"]) simp
    next
      case False
      with "1.prems" round have r: "r = nxt" by (auto simp: mainLoop.simps[of lib ws it cur])
      have "afterRounds lib ws (Suc 0) cur = Inr r" using unroll[of 0] r by simp
      moreover have "\<exists>g. afterRounds lib ws 0 cur = Inr g \<and> \<not> sweepChanges lib ws g"
        if "it + Suc 0 < 10"
        using that False sw by simp
      ultimately show ?thesis using "1.prems"(2) by (intro exI[of _ "Suc 0"]) simp
    qed
  qed
qed

text \<open>
  Claim C8, as amended. The main loop runs rounds of one expander sweep followed by one
  runSimulation call on the outer graph. It runs at least one and at most ten rounds;
  in every round but the last the sweep changed the gate list; and when it stops
  before the tenth round, the sweep of its last round left the gate list unchanged. What
  the flat engine changes in a round is not looked at.
\<close>

theorem mainLoop_stops:
  assumes "mainLoop customGates ws 0 tempGates = Inr result"
  shows "\<exists>n. 0 < n \<and> n \<le> 10 \<and> afterRounds customGates ws n tempGates = Inr result
        \<and> (\<forall>k. Suc k < n \<longrightarrow>
              (\<exists>g. afterRounds customGates ws k tempGates = Inr g \<and> sweepChanges customGates ws g))
        \<and> (n < 10 \<longrightarrow>
              (\<exists>g. afterRounds customGates ws (n - 1) tempGates = Inr g
                   \<and> \<not> sweepChanges customGates ws g))"
  using mainLoop_rounds[OF assms] by simp

text \<open>
  The inverter circuit started with every value false: the loop stops after the third
  round, the first whose sweep changes nothing.
\<close>

theorem mainLoop_stops_witness:
  "mainLoop nandLibrary (wires inverterDrawing) 0
       (gates (inverterState False False [False, False] [False] False))
     = Inr (gates (inverterState False True [True, True] [False] False))
   \<and> (\<exists>n. 0 < n \<and> n \<le> 10
          \<and> afterRounds nandLibrary (wires inverterDrawing) n
               (gates (inverterState False False [False, False] [False] False))
             = Inr (gates (inverterState False True [True, True] [False] False)))
   \<and> afterRounds nandLibrary (wires inverterDrawing) 3
        (gates (inverterState False False [False, False] [False] False))
      = Inr (gates (inverterState False True [True, True] [False] False))
   \<and> sweepChanges nandLibrary (wires inverterDrawing)
        (gates (inverterState False False [False, False] [False] False))
   \<and> \<not> sweepChanges nandLibrary (wires inverterDrawing)
        (gates (inverterState False True [True, True] [False] False))"
proof -
  have a: "mainLoop nandLibrary (wires inverterDrawing) 0
       (gates (inverterState False False [False, False] [False] False))
     = Inr (gates (inverterState False True [True, True] [False] False))"
    by code_simp
  have b: "afterRounds nandLibrary (wires inverterDrawing) 3
        (gates (inverterState False False [False, False] [False] False))
      = Inr (gates (inverterState False True [True, True] [False] False))"
    by code_simp
  have c: "sweepChanges nandLibrary (wires inverterDrawing)
        (gates (inverterState False False [False, False] [False] False))"
    by code_simp
  have d: "\<not> sweepChanges nandLibrary (wires inverterDrawing)
        (gates (inverterState False True [True, True] [False] False))"
    by code_simp
  from mainLoop_stops[OF a] have "\<exists>n. 0 < n \<and> n \<le> 10
          \<and> afterRounds nandLibrary (wires inverterDrawing) n
               (gates (inverterState False False [False, False] [False] False))
             = Inr (gates (inverterState False True [True, True] [False] False))"
    by blast
  with a b c d show ?thesis by blast
qed

text \<open>
  Claim C8 as stated fails. The settled inverter circuit has its INPUT switched on. The
  first round's sweep finds the instance's arrays unchanged, the flat engine then turns
  the NOT gate off, and the loop stops although the gate list has changed and nine rounds
  are left. The loop that compares the gate lists of successive rounds goes on and
  returns a different gate list.
\<close>

theorem mainLoop_stops_counterexample:
  "mainRound nandLibrary (wires inverterDrawing)
       (gates (inverterState True True [True, True] [False] False))
     = Inr (gates (inverterState True False [True, True] [False] False), False)
   \<and> gates (inverterState True False [True, True] [False] False)
       \<noteq> gates (inverterState True True [True, True] [False] False)
   \<and> mainLoop nandLibrary (wires inverterDrawing) 0
       (gates (inverterState True True [True, True] [False] False))
     = Inr (gates (inverterState True False [True, True] [False] False))
   \<and> mainLoopSpec nandLibrary (wires inverterDrawing) 0
       (gates (inverterState True True [True, True] [False] False))
     = Inr (gates (inverterState True False [False, False] [True] True))
   \<and> gates (inverterState True False [False, False] [True] True)
       \<noteq> gates (inverterState True False [True, True] [False] False)"
  by code_simp

section \<open>Convergence of the flat engine on ranked circuits\<close>

lemma inputSlot_cong:
  assumes "\<forall>w\<in>set fs. wireValue cur w = wireValue cur' w"
  shows "inputSlot cur fs i = inputSlot cur' fs i"
proof (cases "find (\<lambda>w. portIndex (wire_to w) = i) fs")
  case None
  then show ?thesis by (simp add: inputSlot_def)
next
  case (Some w)
  from find_SomeD[OF Some] assms have "wireValue cur w = wireValue cur' w" by blast
  with Some show ?thesis by (simp add: inputSlot_def)
qed

lemma simGate_cong:
  assumes "\<forall>w\<in>set ws. gateId (wire_to w) = gate_id g \<longrightarrow> wireValue cur w = wireValue cur' w"
  shows "simGate lib ws cur g = simGate lib ws cur' g"
proof -
  let ?fs = "filter (\<lambda>w. gateId (wire_to w) = gate_id g) ws"
  from assms have "\<forall>w\<in>set ?fs. wireValue cur w = wireValue cur' w" by simp
  then have eq: "inputSlot cur ?fs = inputSlot cur' ?fs"
    by (intro ext inputSlot_cong)
  show ?thesis unfolding simGate_def Let_def eq by (rule refl)
qed

lemma simGate_idem:
  assumes "simGate lib ws cur g = Inr (g', c)"
  shows "simGate lib ws cur g' = Inr (g', False)"
proof (cases "gate_type g = INPUT")
  case True
  with assms show ?thesis by (simp add: simGate_def)
next
  case False
  from assms False obtain n where n: "numInputs lib g = Inr n"
    by (cases "numInputs lib g") (simp_all add: simGate_def)
  let ?fs = "filter (\<lambda>w. gateId (wire_to w) = gate_id g) ws"
  define v where "v = (if gate_type g \<noteq> OUTPUT \<and> length ?fs < n then False
                       else newValue (gate_type g) (map (inputSlot cur ?fs) [0..<n]))"
  have step: "simGate lib ws cur h = Inr (setValue h v)"
    if "gate_type h = gate_type g" "gate_id h = gate_id g" "numInputs lib h = Inr n" for h
    using that False by (simp add: simGate_def Let_def v_def)
  from assms step[of g] n have "setValue g v = (g', c)" by simp
  from setValue_shape[OF this] have g': "g' = g\<lparr>gate_value := v\<rparr>" by simp
  have "numInputs lib g' = numInputs lib g"
    by (simp add: g' numInputs_def split: option.splits TemplateLookup.splits)
  with n have "numInputs lib g' = Inr n" by simp
  moreover have "setValue g' v = (g', False)" by (simp add: g' setValue_def)
  moreover have "gate_type g' = gate_type g" "gate_id g' = gate_id g" by (simp_all add: g')
  ultimately show ?thesis using step[of g'] by simp
qed

lemma find_pointwise:
  assumes "list_all2 (\<lambda>x y. gate_id x = gate_id y \<and> (gate_id y = a \<longrightarrow> x = y)) nxt cur"
  shows "find (\<lambda>g. gate_id g = a) nxt = find (\<lambda>g. gate_id g = a) cur"
  using assms by (induction rule: list_all2_induct) auto

lemma wireValue_settled:
  assumes "simPass lib ws cur = Inr (nxt, ch)" "settled lib ws rank k cur"
    "rank (gateId (wire_from w)) < k"
  shows "wireValue nxt w = wireValue cur w"
proof -
  let ?a = "gateId (wire_from w)"
  have "gate_id (nxt ! i) = gate_id (cur ! i) \<and> (gate_id (cur ! i) = ?a \<longrightarrow> nxt ! i = cur ! i)"
    if i: "i < length cur" for i
  proof -
    from simPass_nth[OF assms(1) i] obtain c
      where c: "simGate lib ws cur (cur ! i) = Inr (nxt ! i, c)" by blast
    have "nxt ! i = cur ! i" if "gate_id (cur ! i) = ?a"
    proof -
      from that assms(2,3) i have "simGate lib ws cur (cur ! i) = Inr (cur ! i, False)"
        by (simp add: settled_def)
      with c show ?thesis by simp
    qed
    with simGate_id[OF c] show ?thesis by simp
  qed
  with simPass_length[OF assms(1)]
  have "list_all2 (\<lambda>x y. gate_id x = gate_id y \<and> (gate_id y = ?a \<longrightarrow> x = y)) nxt cur"
    by (simp add: list_all2_conv_all_nth)
  from find_pointwise[OF this] show ?thesis by (simp add: wireValue_def)
qed

lemma settled_step:
  assumes "simPass lib ws cur = Inr (nxt, ch)" "ranked rank ws" "settled lib ws rank k cur"
  shows "settled lib ws rank (Suc k) nxt"
  unfolding settled_def
proof (intro ballI impI)
  fix g' assume g': "g' \<in> set nxt" and rk: "rank (gate_id g') < Suc k"
  from simPass_elem[OF assms(1) g'] obtain g c
    where g: "simGate lib ws cur g = Inr (g', c)" by blast
  have "wireValue nxt w = wireValue cur w"
    if "w \<in> set ws" "gateId (wire_to w) = gate_id g'" for w
  proof -
    from that assms(2) have "rank (gateId (wire_from w)) < rank (gate_id g')"
      by (auto simp: ranked_def list_all_iff)
    with rk have "rank (gateId (wire_from w)) < k" by simp
    from wireValue_settled[OF assms(1,3) this] show ?thesis .
  qed
  then have "simGate lib ws nxt g' = simGate lib ws cur g'"
    by (intro simGate_cong) blast
  with simGate_idem[OF g] show "simGate lib ws nxt g' = Inr (g', False)" by simp
qed

lemma mapE_pointwise:
  "(\<And>x. x \<in> set xs \<Longrightarrow> f x = Inr (h x)) \<Longrightarrow> mapE f xs = Inr (map h xs)"
  by (induction xs) auto

lemma settled_fixpoint:
  assumes "settled lib ws rank k cur" "ranksBelow rank k cur"
  shows "simPass lib ws cur = Inr (cur, False)"
proof -
  from assms have "mapE (simGate lib ws cur) cur = Inr (map (\<lambda>g. (g, False)) cur)"
    by (intro mapE_pointwise) (auto simp: settled_def ranksBelow_def list_all_iff)
  then show ?thesis by (simp add: simPass_def comp_def list_ex_iff)
qed

lemma simPass_flag:
  assumes "simPass lib ws cur = Inr (nxt, ch)"
  shows "ch = (nxt \<noteq> cur)"
proof -
  from assms obtain rs where rs: "mapE (simGate lib ws cur) cur = Inr rs"
    "nxt = map fst rs" "ch = list_ex snd rs"
    by (auto simp: simPass_def split: sum.splits)
  note len = mapE_length[OF rs(1)]
  have el: "snd (rs ! i) = (fst (rs ! i) \<noteq> cur ! i)" if "i < length cur" for i
    using mapE_nth[OF rs(1) that] simGate_shape[of lib ws cur "cur ! i" "fst (rs ! i)" "snd (rs ! i)"]
    by simp
  have "ch = (\<exists>i<length rs. snd (rs ! i))"
    unfolding rs(3) list_ex_iff by (metis in_set_conv_nth)
  then have "ch = (\<exists>i<length cur. snd (rs ! i))" using len by simp
  also have "\<dots> = (\<exists>i<length cur. nxt ! i \<noteq> cur ! i)"
    using el rs(2) len by auto
  also have "\<dots> = (nxt \<noteq> cur)"
    using rs(2) len by (auto simp: list_eq_iff_nth_eq)
  finally show ?thesis .
qed

lemma ranksBelow_cong:
  assumes "map signature nxt = map signature cur"
  shows "ranksBelow rank b nxt = ranksBelow rank b cur"
proof -
  have "map gate_id xs = map (fst \<circ> signature) xs" for xs
    by (simp add: signature_def comp_def)
  with assms have "map gate_id nxt = map gate_id cur" by (metis map_map)
  then have "gate_id ` set nxt = gate_id ` set cur" by (metis set_map)
  moreover have "ranksBelow rank b xs = (\<forall>a\<in>gate_id ` set xs. rank a < b)" for xs
    by (simp add: ranksBelow_def list_all_iff)
  ultimately show ?thesis by (simp only:)
qed

lemma ranksBelow_mono: "ranksBelow rank b gs \<Longrightarrow> b \<le> b' \<Longrightarrow> ranksBelow rank b' gs"
  by (auto simp: ranksBelow_def list_all_iff)

lemma simLoop_fixpoint:
  "simLoop lib ws it cur = Inr r \<Longrightarrow> ranked rank ws \<Longrightarrow> settled lib ws rank it cur \<Longrightarrow>
     ranksBelow rank MAX_ITERATIONS cur \<Longrightarrow> simPass lib ws r = Inr (r, False)"
proof (induction lib ws it cur rule: simLoop.induct)
  case (1 lib ws it cur)
  show ?case
  proof (cases "simPass lib ws cur")
    case (Inl e)
    with "1.prems" show ?thesis by (simp add: simLoop.simps[of lib ws it cur])
  next
    case (Inr p)
    obtain nxt ch where p: "p = (nxt, ch)" by (cases p)
    note pass = Inr[unfolded p]
    note st = settled_step[OF pass "1.prems"(2,3)]
    from simPass_signature[OF pass] "1.prems"(4)
    have rb: "ranksBelow rank MAX_ITERATIONS nxt"
      using ranksBelow_cong[of nxt cur rank MAX_ITERATIONS] by simp
    show ?thesis
    proof (cases "ch \<and> Suc it < MAX_ITERATIONS")
      case True
      with "1.prems" pass have "simLoop lib ws (Suc it) nxt = Inr r"
        by (simp add: simLoop.simps[of lib ws it cur])
      from "1.IH"[OF pass refl True this "1.prems"(2) st rb] show ?thesis .
    next
      case False
      with "1.prems" pass have r: "r = nxt" by (auto simp: simLoop.simps[of lib ws it cur])
      show ?thesis
      proof (cases ch)
        case True
        with False have "MAX_ITERATIONS \<le> Suc it" by simp
        from settled_fixpoint[OF st ranksBelow_mono[OF rb this]] r show ?thesis by simp
      next
        case False
        with simPass_flag[OF pass] pass r show ?thesis by simp
      qed
    qed
  qed
qed

lemma runSimulation_fixpoint:
  assumes "simPass lib ws r = Inr (r, False)"
  shows "runSimulation lib r ws = Inr r"
  using assms by (simp add: runSimulation_def simLoop.simps[of lib ws 0 r])

lemma runSimulation_converges:
  assumes "runSimulation lib gs ws = Inr r" "ranked rank ws" "ranksBelow rank MAX_ITERATIONS gs"
  shows "simPass lib ws r = Inr (r, False)"
proof -
  have "settled lib ws rank 0 gs" by (simp add: settled_def)
  from simLoop_fixpoint[OF assms(1)[unfolded runSimulation_def] assms(2) this assms(3)]
  show ?thesis .
qed

section \<open>Gate values in the list runSimulation returns\<close>

lemma simPass_valueFromInputs:
  assumes "simPass customGates wireList src = Inr (result, changed)"
    and "fanInOk wireList"
    and "g \<in> set result"
  shows "valueFromInputs wireList src g"
proof -
  from assms(3) obtain i where i: "i < length result" "result ! i = g"
    by (auto simp: in_set_conv_nth)
  with simPass_length[OF assms(1)] have il: "i < length src" by simp
  from simPass_gate_values[OF assms(1,2) il] i(2)
  show ?thesis unfolding valueFromInputs_def by simp
qed

text \<open>
  Claim C1 as stated fails when the pass budget runs out. A NOT gate wired to itself
  and holding true is returned by runSimulation as it went in, after 50 passes: its
  port 0 is wired, the wire carries true in the returned list, and the gate's value is
  true as well, not the negation.
\<close>

theorem flat_fixpoint_counterexample:
  "runSimulation Map.empty (gates (notLoop True)) (wires (notLoop True))
     = Inr (gates (notLoop True))
   \<and> fanInOk (wires (notLoop True))
   \<and> map gate_type (gates (notLoop True)) = [NOT]
   \<and> map wire_to (wires (notLoop True)) = [port (gate_id (gates (notLoop True) ! 0)) 0]
   \<and> map (wireValue (gates (notLoop True))) (wires (notLoop True)) = [True]
   \<and> map gate_value (gates (notLoop True)) = [True]
   \<and> \<not> valueFromInputs (wires (notLoop True)) (gates (notLoop True)) (gates (notLoop True) ! 0)"
proof -
  define ws where "ws = wires (notLoop True)"
  define gs where "gs = gates (notLoop True)"
  have r: "runSimulation Map.empty gs ws = Inr gs" unfolding ws_def gs_def by code_simp
  have f: "fanInOk ws" unfolding ws_def by code_simp
  have ty: "map gate_type gs = [NOT]" unfolding gs_def by code_simp
  have to: "map wire_to ws = [port (gate_id (gs ! 0)) 0]" unfolding ws_def gs_def by code_simp
  have wv: "map (wireValue gs) ws = [True]" unfolding ws_def gs_def by code_simp
  have gv: "map gate_value gs = [True]" unfolding gs_def by code_simp
  from ty have lg: "length gs = 1" by (metis length_map length_Cons list.size(3) One_nat_def)
  from to have lw: "length ws = 1" by (metis length_map length_Cons list.size(3) One_nat_def)
  from ty lg have t0: "gate_type (gs ! 0) = NOT" by (metis nth_map nth_Cons_0 zero_less_one)
  from gv lg have v0: "gate_value (gs ! 0)" by (metis nth_map nth_Cons_0 zero_less_one)
  from to lw have w0: "wire_to (ws ! 0) = port (gate_id (gs ! 0)) 0"
    by (metis nth_map nth_Cons_0 zero_less_one)
  from wv lw have wv0: "wireValue gs (ws ! 0)" by (metis nth_map nth_Cons_0 zero_less_one)
  from lw have m: "ws ! 0 \<in> set ws" by simp
  have "\<not> valueFromInputs ws gs (gs ! 0)"
  proof
    assume "valueFromInputs ws gs (gs ! 0)"
    then have "\<forall>w0. gate_type (gs ! 0) = NOT
          \<and> w0 \<in> set ws \<and> wire_to w0 = port (gate_id (gs ! 0)) 0
          \<longrightarrow> gate_value (gs ! 0) = (\<not> wireValue gs w0)"
      unfolding valueFromInputs_def by blast
    with t0 m w0 have "gate_value (gs ! 0) = (\<not> wireValue gs (ws ! 0))" by blast
    with v0 wv0 show False by simp
  qed
  with r f ty to wv gv show ?thesis unfolding ws_def gs_def by blast
qed

text \<open>
  Claim C1, as amended. Let the wire list have at most one wire per destination port and
  let runSimulation return a gate list. Then that list is the outcome of a pass of the
  engine over some gate list \<open>src\<close>, and every gate in the returned list has the value
  that the formula of its kind gives on the wire values read from \<open>src\<close>: conjunction
  for a fully wired AND gate, disjunction for a fully wired OR gate, negation for a wired
  NOT gate, the driver's value for a wired OUTPUT gate, false for an unwired OUTPUT gate.
  When that last pass changed nothing, \<open>src\<close> is the returned list itself; this is the
  case whenever the wires go from lower to higher ranks and all ranks are below the
  budget of 50 passes.
\<close>

theorem flat_fixpoint_values:
  assumes "runSimulation customGates gateList wireList = Inr result"
    and "fanInOk wireList"
  shows "\<exists>src changed.
           simPass customGates wireList src = Inr (result, changed)
         \<and> (\<not> changed \<longrightarrow> src = result)
         \<and> ((\<exists>rank. ranked rank wireList \<and> ranksBelow rank MAX_ITERATIONS gateList)
              \<longrightarrow> src = result)
         \<and> (\<forall>g\<in>set result. valueFromInputs wireList src g)"
proof (cases "simPass customGates wireList result = Inr (result, False)")
  case True
  from simPass_valueFromInputs[OF True assms(2)]
  have "\<forall>g\<in>set result. valueFromInputs wireList result g" by blast
  with True show ?thesis by blast
next
  case False
  from assms(1) obtain prev ch where p: "simPass customGates wireList prev = Inr (result, ch)"
    unfolding runSimulation_def using simLoop_last_pass by blast
  from simPass_flag[OF p] have fl: "\<not> ch \<longrightarrow> prev = result" by blast
  have "\<not> (\<exists>rank. ranked rank wireList \<and> ranksBelow rank MAX_ITERATIONS gateList)"
    using runSimulation_converges[OF assms(1)] False by blast
  moreover from simPass_valueFromInputs[OF p assms(2)]
  have "\<forall>g\<in>set result. valueFromInputs wireList prev g" by blast
  ultimately show ?thesis using p fl by blast
qed

text \<open>
  The circuit of all gate kinds with both inputs on, ranked: the values in the list
  runSimulation returns follow from the wire values in that same list.
\<close>

theorem flat_fixpoint_values_witness:
  "runSimulation Map.empty (gates (truthCircuit True True)) (wires (truthCircuit True True))
     = Inr (simulatedGates (runSimulation Map.empty (gates (truthCircuit True True))
                              (wires (truthCircuit True True))))
   \<and> fanInOk (wires (truthCircuit True True))
   \<and> ranked truthRank (wires (truthCircuit True True))
   \<and> ranksBelow truthRank MAX_ITERATIONS (gates (truthCircuit True True))
   \<and> list_all (valueFromInputs (wires (truthCircuit True True))
                 (simulatedGates (runSimulation Map.empty (gates (truthCircuit True True))
                                    (wires (truthCircuit True True)))))
        (simulatedGates (runSimulation Map.empty (gates (truthCircuit True True))
                           (wires (truthCircuit True True))))
   \<and> map gate_type (simulatedGates (runSimulation Map.empty (gates (truthCircuit True True))
                                      (wires (truthCircuit True True))))
        = [INPUT, INPUT, AND, OR, NOT, OUTPUT, OUTPUT]
   \<and> map gate_value (simulatedGates (runSimulation Map.empty (gates (truthCircuit True True))
                                       (wires (truthCircuit True True))))
        = [True, True, True, True, False, True, False]"
proof -
  define ws where "ws = wires (truthCircuit True True)"
  define gs where "gs = gates (truthCircuit True True)"
  define R where "R = simulatedGates (runSimulation Map.empty gs ws)"
  have r: "runSimulation Map.empty gs ws = Inr R" unfolding ws_def gs_def R_def by code_simp
  have f: "fanInOk ws" unfolding ws_def by code_simp
  have rk: "ranked truthRank ws" unfolding ws_def by code_simp
  have rb: "ranksBelow truthRank MAX_ITERATIONS gs" unfolding gs_def by code_simp
  have ty: "map gate_type R = [INPUT, INPUT, AND, OR, NOT, OUTPUT, OUTPUT]"
    unfolding ws_def gs_def R_def by code_simp
  have gv: "map gate_value R = [True, True, True, True, False, True, False]"
    unfolding ws_def gs_def R_def by code_simp
  from flat_fixpoint_values[OF r f] rk rb
  have "\<forall>g\<in>set R. valueFromInputs ws R g" by blast
  then have "list_all (valueFromInputs ws R) R" by (simp add: list_all_iff)
  with r f rk rb ty gv show ?thesis unfolding ws_def gs_def R_def by blast
qed

section \<open>Convergence of the expander on ranked circuits\<close>

lemma liveInput_cong:
  assumes "\<forall>w\<in>set ws. gateId (wire_to w) = gate_id g \<longrightarrow> wireValue cur w = wireValue cur' w"
  shows "liveInput cur ws g i = liveInput cur' ws g i"
proof (cases "find (\<lambda>w. gateId (wire_to w) = gate_id g \<and> portIndex (wire_to w) = i) ws")
  case None
  then show ?thesis by (simp add: liveInput_def)
next
  case (Some w)
  from find_SomeD[OF Some] assms have "wireValue cur w = wireValue cur' w" by blast
  with Some show ?thesis by (simp add: liveInput_def)
qed

lemma expandGate_cong:
  assumes "\<forall>w\<in>set ws. gateId (wire_to w) = gate_id g \<longrightarrow> wireValue cur w = wireValue cur' w"
  shows "expandGate lib ws cur g = expandGate lib ws cur' g"
proof -
  have eq: "liveInput cur ws g = liveInput cur' ws g"
    by (intro ext liveInput_cong[OF assms])
  show ?thesis unfolding expandGate_def eq by (rule refl)
qed

lemma expandGate_ports:
  "expandGate lib ws cur (g\<lparr>inputValues := a, outputValues := b, gate_value := v\<rparr>)
     = (case expandGate lib ws cur g of
          Inl e \<Rightarrow> Inl e
        | Inr (g', c) \<Rightarrow>
            if gate_type g = CUSTOM \<and> lookupTemplate lib (customGateName g) \<noteq> Undefined
            then Inr (g'\<lparr>gate_value := v\<rparr>, a \<noteq> inputValues g' \<or> b \<noteq> outputValues g')
            else Inr (g\<lparr>inputValues := a, outputValues := b, gate_value := v\<rparr>, False))"
proof (cases "gate_type g = CUSTOM")
  case False
  then show ?thesis by (simp add: expandGate_def)
next
  case True
  show ?thesis
  proof (cases "lookupTemplate lib (customGateName g)")
    case Undefined
    with True show ?thesis by (simp add: expandGate_def)
  next
    case Inherited
    with True show ?thesis by (simp add: expandGate_def)
  next
    case (Template t)
    let ?niv = "map (liveInput cur ws g) [0..<length (t_inputs t)]"
    let ?inner = "seedInputs (t_inputs t) ?niv (map instantiateGate (t_gates t))"
    have li: "liveInput cur ws (g\<lparr>inputValues := a, outputValues := b, gate_value := v\<rparr>)
                = liveInput cur ws g"
      by (intro ext) (simp add: liveInput_def)
    show ?thesis
    proof (cases "runSimulation lib ?inner (map instantiateWire (t_wires t))")
      case (Inl e)
      with True Template show ?thesis by (simp add: expandGate_def Let_def li)
    next
      case (Inr sim)
      with True Template show ?thesis by (auto simp: expandGate_def Let_def li)
    qed
  qed
qed

lemma expandGate_idem:
  assumes "expandGate lib ws cur g = Inr (g', c)"
  shows "expandGate lib ws cur g' = Inr (g', False)"
proof -
  have g: "g = g\<lparr>inputValues := inputValues g, outputValues := outputValues g,
                 gate_value := gate_value g\<rparr>" by simp
  from expandGate_cases[OF assms] show ?thesis
  proof
    assume eq: "g' = g"
    with assms expandGate_flag[OF assms] show ?thesis by simp
  next
    assume "\<exists>ivs ovs. g' = g\<lparr>inputValues := Some ivs, outputValues := Some ovs\<rparr>"
    then obtain ivs ovs where g': "g' = g\<lparr>inputValues := Some ivs, outputValues := Some ovs\<rparr>"
      by blast
    then have g'': "g' = g\<lparr>inputValues := Some ivs, outputValues := Some ovs,
                            gate_value := gate_value g\<rparr>" by simp
    show ?thesis
    proof (cases "gate_type g = CUSTOM \<and> lookupTemplate lib (customGateName g) \<noteq> Undefined")
      case True
      have "gate_value g' = gate_value g" by (simp add: g')
      then have "g'\<lparr>gate_value := gate_value g\<rparr> = g'" by (metis upd_value_eq)
      with True assms show ?thesis
        by (subst g'', subst expandGate_ports) (simp add: g')
    next
      case False
      then consider "gate_type g \<noteq> CUSTOM"
        | "gate_type g = CUSTOM" "lookupTemplate lib (customGateName g) = Undefined"
        by blast
      then have "g' = g"
      proof cases
        case 1
        with assms show ?thesis by (simp add: expandGate_def)
      next
        case 2
        with assms show ?thesis by (simp add: expandGate_def)
      qed
      with assms expandGate_flag[OF assms] show ?thesis by simp
    qed
  qed
qed

lemma expandGate_value:
  assumes "expandGate lib ws cur g = Inr (g, False)"
  shows "expandGate lib ws cur (g\<lparr>gate_value := v\<rparr>) = Inr (g\<lparr>gate_value := v\<rparr>, False)"
proof -
  have "g\<lparr>gate_value := v\<rparr>
          = g\<lparr>inputValues := inputValues g, outputValues := outputValues g, gate_value := v\<rparr>"
    by simp
  then have "expandGate lib ws cur (g\<lparr>gate_value := v\<rparr>)
          = expandGate lib ws cur
              (g\<lparr>inputValues := inputValues g, outputValues := outputValues g, gate_value := v\<rparr>)"
    by simp
  also have "\<dots> = Inr (g\<lparr>gate_value := v\<rparr>, False)"
    by (subst expandGate_ports) (simp add: assms)
  finally show ?thesis .
qed

lemma find_rel:
  assumes "list_all2 (\<lambda>x y. gate_id x = gate_id y \<and> R x y) nxt cur"
  shows "rel_option R (find (\<lambda>g. gate_id g = a) nxt) (find (\<lambda>g. gate_id g = a) cur)"
  using assms by (induction rule: list_all2_induct) auto

lemma signature_list_all2:
  assumes "map signature nxt = map signature cur"
  shows "list_all2 (\<lambda>x y. gate_id x = gate_id y \<and> gate_type x = gate_type y) nxt cur"
proof -
  from assms have len: "length nxt = length cur" by (rule map_eq_imp_length_eq)
  have "gate_id (nxt ! i) = gate_id (cur ! i) \<and> gate_type (nxt ! i) = gate_type (cur ! i)"
    if "i < length cur" for i
  proof -
    from that len assms have "signature (nxt ! i) = signature (cur ! i)" by (metis nth_map)
    then show ?thesis by (simp add: signature_def)
  qed
  with len show ?thesis by (simp add: list_all2_conv_all_nth)
qed

lemma compositeFed_cong:
  assumes "map signature nxt = map signature cur"
  shows "compositeFed nxt ws = compositeFed cur ws"
proof -
  note rel = signature_list_all2[OF assms]
  have ex: "list_ex (\<lambda>g. gate_id g = a \<and> gate_type g = CUSTOM) nxt
          = list_ex (\<lambda>g. gate_id g = a \<and> gate_type g = CUSTOM) cur" for a
    using rel by (induction rule: list_all2_induct) auto
  have fd: "(case find (\<lambda>fg. gate_id fg = a) nxt of
               None \<Rightarrow> True | Some fg \<Rightarrow> gate_type fg = INPUT \<or> gate_type fg = CUSTOM)
          = (case find (\<lambda>fg. gate_id fg = a) cur of
               None \<Rightarrow> True | Some fg \<Rightarrow> gate_type fg = INPUT \<or> gate_type fg = CUSTOM)" for a
    using find_rel[OF rel, of a]
    by (cases "find (\<lambda>fg. gate_id fg = a) nxt"; cases "find (\<lambda>fg. gate_id fg = a) cur") auto
  show ?thesis unfolding compositeFed_def ex fd by (rule refl)
qed

lemma compositeFed_source:
  assumes "compositeFed cur ws" "w \<in> set ws" "g \<in> set cur" "gate_type g = CUSTOM"
    "gateId (wire_to w) = gate_id g"
  shows "case find (\<lambda>fg. gate_id fg = gateId (wire_from w)) cur of
           None \<Rightarrow> True | Some fg \<Rightarrow> gate_type fg = INPUT \<or> gate_type fg = CUSTOM"
proof -
  from assms(3-5) have "list_ex (\<lambda>g. gate_id g = gateId (wire_to w) \<and> gate_type g = CUSTOM) cur"
    by (auto simp: list_ex_iff)
  with assms(1,2) show ?thesis by (auto simp: compositeFed_def list_all_iff)
qed

lemma wireValue_pass_source:
  assumes "simPass lib ws cur = Inr (nxt, ch)"
    "case find (\<lambda>fg. gate_id fg = gateId (wire_from w)) cur of
       None \<Rightarrow> True | Some fg \<Rightarrow> gate_type fg = INPUT \<or> gate_type fg = CUSTOM"
  shows "wireValue nxt w = wireValue cur w"
proof -
  let ?R = "\<lambda>x y. gate_type y = INPUT \<or> gate_type y = CUSTOM \<longrightarrow> sourceValue x = sourceValue y"
  have "gate_id (nxt ! i) = gate_id (cur ! i) \<and> ?R (nxt ! i) (cur ! i)"
    if i: "i < length cur" for i
  proof -
    from simPass_nth[OF assms(1) i] obtain c
      where c: "simGate lib ws cur (cur ! i) = Inr (nxt ! i, c)" by blast
    have "sourceValue (nxt ! i) = sourceValue (cur ! i)" if "gate_type (cur ! i) = INPUT"
      using that c by (simp add: simGate_def)
    moreover have "sourceValue (nxt ! i) = sourceValue (cur ! i)" if "gate_type (cur ! i) = CUSTOM"
    proof -
      from simGate_shape[OF c] have "nxt ! i = (cur ! i)\<lparr>gate_value := gate_value (nxt ! i)\<rparr>"
        by simp
      then have "sourceValue (nxt ! i) p
                   = sourceValue ((cur ! i)\<lparr>gate_value := gate_value (nxt ! i)\<rparr>) p" for p
        by simp
      with that show ?thesis by (intro ext) (simp add: sourceValue_def)
    qed
    ultimately show ?thesis using simGate_id[OF c] by blast
  qed
  with simPass_length[OF assms(1)]
  have "list_all2 (\<lambda>x y. gate_id x = gate_id y \<and> ?R x y) nxt cur"
    by (simp add: list_all2_conv_all_nth)
  from find_rel[OF this, of "gateId (wire_from w)"] assms(2) show ?thesis
    by (cases "find (\<lambda>fg. gate_id fg = gateId (wire_from w)) nxt";
        cases "find (\<lambda>fg. gate_id fg = gateId (wire_from w)) cur")
       (auto simp: wireValue_def)
qed

lemma compositeSettled_pass:
  assumes "simPass lib ws cur = Inr (nxt, ch)" "compositeFed cur ws"
    "compositeSettled lib ws rank k cur"
  shows "compositeSettled lib ws rank k nxt"
  unfolding compositeSettled_def
proof (intro ballI impI)
  fix g' assume g': "g' \<in> set nxt" and ty: "gate_type g' = CUSTOM \<and> rank (gate_id g') < k"
  from simPass_elem[OF assms(1) g'] obtain g c
    where g: "g \<in> set cur" "simGate lib ws cur g = Inr (g', c)" by blast
  note id = simGate_id[OF g(2)] and tp = simGate_type[OF g(2)]
  from simGate_shape[OF g(2)] have sh: "g' = g\<lparr>gate_value := gate_value g'\<rparr>" by simp
  from assms(3) g(1) ty id tp have "expandGate lib ws cur g = Inr (g, False)"
    by (simp add: compositeSettled_def)
  from expandGate_value[OF this, of "gate_value g'"] sh
  have cur: "expandGate lib ws cur g' = Inr (g', False)" by simp
  have "wireValue nxt w = wireValue cur w"
    if "w \<in> set ws" "gateId (wire_to w) = gate_id g'" for w
    using wireValue_pass_source[OF assms(1)] compositeFed_source[OF assms(2) that(1) g(1)]
      that(2) ty id tp by simp
  then have "expandGate lib ws nxt g' = expandGate lib ws cur g'"
    by (intro expandGate_cong) blast
  with cur show "expandGate lib ws nxt g' = Inr (g', False)" by simp
qed

lemma compositeSettled_simLoop:
  "simLoop lib ws it cur = Inr r \<Longrightarrow> compositeFed cur ws \<Longrightarrow>
     compositeSettled lib ws rank k cur \<Longrightarrow> compositeSettled lib ws rank k r"
proof (induction lib ws it cur rule: simLoop.induct)
  case (1 lib ws it cur)
  show ?case
  proof (cases "simPass lib ws cur")
    case (Inl e)
    with "1.prems" show ?thesis by (simp add: simLoop.simps[of lib ws it cur])
  next
    case (Inr p)
    obtain nxt ch where p: "p = (nxt, ch)" by (cases p)
    note pass = Inr[unfolded p]
    note st = compositeSettled_pass[OF pass "1.prems"(2,3)]
    from compositeFed_cong[OF simPass_signature[OF pass], of ws] "1.prems"(2)
    have fed: "compositeFed nxt ws" by simp
    show ?thesis
    proof (cases "ch \<and> Suc it < MAX_ITERATIONS")
      case True
      with "1.prems" pass have "simLoop lib ws (Suc it) nxt = Inr r"
        by (simp add: simLoop.simps[of lib ws it cur])
      from "1.IH"[OF pass refl True this fed st] show ?thesis .
    next
      case False
      with "1.prems" pass have "r = nxt" by (auto simp: simLoop.simps[of lib ws it cur])
      with st show ?thesis by simp
    qed
  qed
qed

lemma expandAll_elem:
  assumes "expandAll lib ws cur = Inr (swept, ch)" "g' \<in> set swept"
  shows "\<exists>g c. g \<in> set cur \<and> expandGate lib ws cur g = Inr (g', c)"
proof -
  from assms(2) obtain i where i: "i < length swept" "swept ! i = g'"
    by (auto simp: in_set_conv_nth)
  with expandAll_Inr[OF assms(1)] show ?thesis by (metis nth_mem)
qed

lemma wireValue_sweep:
  assumes "expandAll lib ws cur = Inr (swept, ch)" "compositeSettled lib ws rank k cur"
    "rank (gateId (wire_from w)) < k"
  shows "wireValue swept w = wireValue cur w"
proof -
  let ?a = "gateId (wire_from w)"
  have "gate_id (swept ! i) = gate_id (cur ! i) \<and> (gate_id (cur ! i) = ?a \<longrightarrow> swept ! i = cur ! i)"
    if i: "i < length cur" for i
  proof -
    from expandAll_Inr[OF assms(1)] i obtain c
      where c: "expandGate lib ws cur (cur ! i) = Inr (swept ! i, c)" by blast
    have "swept ! i = cur ! i" if a: "gate_id (cur ! i) = ?a"
    proof (cases "gate_type (cur ! i) = CUSTOM")
      case True
      with a assms(2,3) i have "expandGate lib ws cur (cur ! i) = Inr (cur ! i, False)"
        by (simp add: compositeSettled_def)
      with c show ?thesis by simp
    next
      case False
      with c show ?thesis by (simp add: expandGate_def)
    qed
    moreover from expandGate_signature[OF c] have "gate_id (swept ! i) = gate_id (cur ! i)"
      by (simp add: signature_def)
    ultimately show ?thesis by simp
  qed
  with expandAll_Inr[OF assms(1)]
  have "list_all2 (\<lambda>x y. gate_id x = gate_id y \<and> (gate_id y = ?a \<longrightarrow> x = y)) swept cur"
    by (simp add: list_all2_conv_all_nth)
  from find_pointwise[OF this] show ?thesis by (simp add: wireValue_def)
qed

lemma compositeSettled_sweep:
  assumes "expandAll lib ws cur = Inr (swept, ch)" "ranked rank ws"
    "compositeSettled lib ws rank k cur"
  shows "compositeSettled lib ws rank (Suc k) swept"
  unfolding compositeSettled_def
proof (intro ballI impI)
  fix g' assume g': "g' \<in> set swept" and ty: "gate_type g' = CUSTOM \<and> rank (gate_id g') < Suc k"
  from expandAll_elem[OF assms(1) g'] obtain g c
    where g: "expandGate lib ws cur g = Inr (g', c)" by blast
  have "wireValue swept w = wireValue cur w"
    if "w \<in> set ws" "gateId (wire_to w) = gate_id g'" for w
  proof -
    from that assms(2) have "rank (gateId (wire_from w)) < rank (gate_id g')"
      by (auto simp: ranked_def list_all_iff)
    with ty have "rank (gateId (wire_from w)) < k" by simp
    from wireValue_sweep[OF assms(1,3) this] show ?thesis .
  qed
  then have "expandGate lib ws swept g' = expandGate lib ws cur g'"
    by (intro expandGate_cong) blast
  with expandGate_idem[OF g] show "expandGate lib ws swept g' = Inr (g', False)" by simp
qed

lemma compositeSettled_round:
  assumes "mainRound lib ws cur = Inr (nxt, ch)" "ranked rank ws" "compositeFed cur ws"
    "compositeSettled lib ws rank k cur"
  shows "compositeSettled lib ws rank (Suc k) nxt"
proof -
  from mainRound_Inr[OF assms(1)] obtain swept
    where sw: "expandAll lib ws cur = Inr (swept, ch)" and run: "runSimulation lib swept ws = Inr nxt"
    by blast
  from compositeFed_cong[OF expandAll_signature[OF sw], of ws] assms(3)
  have "compositeFed swept ws" by simp
  from compositeSettled_simLoop[OF run[unfolded runSimulation_def] this
      compositeSettled_sweep[OF sw assms(2,4)]]
  show ?thesis .
qed

lemma sweep_unchanged_settled:
  assumes "expandAll lib ws cur = Inr (cur, ch)"
  shows "compositeSettled lib ws rank k cur"
  unfolding compositeSettled_def
proof (intro ballI impI)
  fix g assume "g \<in> set cur"
  then obtain i where i: "i < length cur" "cur ! i = g" by (auto simp: in_set_conv_nth)
  with expandAll_Inr[OF assms] obtain c where c: "expandGate lib ws cur g = Inr (g, c)" by auto
  from expandGate_flag[OF c] c show "expandGate lib ws cur g = Inr (g, False)" by simp
qed

lemma settled_sweep_fixpoint:
  assumes "compositeSettled lib ws rank k cur" "compositeRanksBelow rank k cur"
  shows "expandAll lib ws cur = Inr (cur, False)"
proof -
  have "expandGate lib ws cur g = Inr (g, False)" if "g \<in> set cur" for g
  proof (cases "gate_type g = CUSTOM")
    case True
    with assms that show ?thesis
      by (auto simp: compositeSettled_def compositeRanksBelow_def list_all_iff)
  next
    case False
    then show ?thesis by (simp add: expandGate_def)
  qed
  then have "mapE (expandGate lib ws cur) cur = Inr (map (\<lambda>g. (g, False)) cur)"
    by (intro mapE_pointwise)
  then show ?thesis by (simp add: expandAll_def comp_def list_ex_iff)
qed

lemma compositeRanksBelow_cong:
  assumes "map signature nxt = map signature cur"
  shows "compositeRanksBelow rank b nxt = compositeRanksBelow rank b cur"
  unfolding compositeRanksBelow_def
  using signature_list_all2[OF assms] by (induction rule: list_all2_induct) auto

lemma compositeRanksBelow_mono:
  "compositeRanksBelow rank b gs \<Longrightarrow> b \<le> b' \<Longrightarrow> compositeRanksBelow rank b' gs"
  by (auto simp: compositeRanksBelow_def list_all_iff)

lemma mainLoop_sweep_stable:
  "mainLoop lib ws it cur = Inr r \<Longrightarrow> ranked rank ws \<Longrightarrow> compositeFed cur ws \<Longrightarrow>
     compositeSettled lib ws rank it cur \<Longrightarrow> compositeRanksBelow rank 10 cur \<Longrightarrow>
     expandAll lib ws r = Inr (r, False)"
proof (induction lib ws it cur rule: mainLoop.induct)
  case (1 lib ws it cur)
  show ?case
  proof (cases "mainRound lib ws cur")
    case (Inl e)
    with "1.prems" show ?thesis by (simp add: mainLoop.simps[of lib ws it cur])
  next
    case (Inr p)
    obtain nxt ch where p: "p = (nxt, ch)" by (cases p)
    note round = Inr[unfolded p]
    note sig = mainRound_signature[OF round]
    note st = compositeSettled_round[OF round "1.prems"(2,3,4)]
    from compositeFed_cong[OF sig, of ws] "1.prems"(3) have fed: "compositeFed nxt ws" by simp
    from compositeRanksBelow_cong[OF sig, of rank 10] "1.prems"(5)
    have rb: "compositeRanksBelow rank 10 nxt" by simp
    show ?thesis
    proof (cases "ch \<and> Suc it < 10")
      case True
      with "1.prems" round have "mainLoop lib ws (Suc it) nxt = Inr r"
        by (simp add: mainLoop.simps[of lib ws it cur])
      from "1.IH"[OF round refl True this "1.prems"(2) fed st rb] show ?thesis .
    next
      case False
      with "1.prems" round have r: "r = nxt" by (auto simp: mainLoop.simps[of lib ws it cur])
      show ?thesis
      proof (cases ch)
        case True
        with False have "10 \<le> Suc it" by simp
        from settled_sweep_fixpoint[OF st compositeRanksBelow_mono[OF rb this]] r
        show ?thesis by simp
      next
        case False
        from mainRound_Inr[OF round] obtain swept
          where sw: "expandAll lib ws cur = Inr (swept, ch)"
            and run: "runSimulation lib swept ws = Inr nxt" by blast
        from expandAll_flag[OF sw] False have "swept = cur" by simp
        with sw run have sw': "expandAll lib ws cur = Inr (cur, ch)"
          and run': "simLoop lib ws 0 cur = Inr nxt" by (simp_all add: runSimulation_def)
        from compositeSettled_simLoop[OF run' "1.prems"(3)
            sweep_unchanged_settled[OF sw', of rank 10]]
        have "compositeSettled lib ws rank 10 nxt" .
        from settled_sweep_fixpoint[OF this rb] r show ?thesis by simp
      qed
    qed
  qed
qed

lemma mainLoop_last_round_signature:
  "mainLoop lib ws it cur = Inr r \<Longrightarrow>
     \<exists>prev ch. mainRound lib ws prev = Inr (r, ch) \<and> map signature prev = map signature cur"
proof (induction lib ws it cur rule: mainLoop.induct)
  case (1 lib ws it cur)
  show ?case
  proof (cases "mainRound lib ws cur")
    case (Inl e)
    with "1.prems" show ?thesis by (simp add: mainLoop.simps[of lib ws it cur])
  next
    case (Inr p)
    obtain nxt ch where p: "p = (nxt, ch)" by (cases p)
    note round = Inr[unfolded p]
    show ?thesis
    proof (cases "ch \<and> Suc it < 10")
      case True
      with "1.prems" round have "mainLoop lib ws (Suc it) nxt = Inr r"
        by (simp add: mainLoop.simps[of lib ws it cur])
      from "1.IH"[OF round refl True this] mainRound_signature[OF round] show ?thesis by auto
    next
      case False
      with "1.prems" round have "r = nxt" by (auto simp: mainLoop.simps[of lib ws it cur])
      with round show ?thesis by blast
    qed
  qed
qed

section \<open>Evaluating twice\<close>

text \<open>
  Claim C5, as amended. Take a circuit without feedback, its gate ids ranked so that
  every wire leads to a higher rank, in which every gate has a rank below 50, every
  composite gate a rank below 10, and every wire into a composite gate starts at an INPUT
  gate or at another composite gate. Whatever the library, if evaluation returns a
  circuit then evaluating that circuit returns it unchanged.
\<close>

theorem evaluate_idempotent:
  assumes "evaluate customGates s = Inr s'"
    and "ranked rank (wires s)"
    and "ranksBelow rank MAX_ITERATIONS (gates s)"
    and "compositeRanksBelow rank 10 (gates s)"
    and "compositeFed (gates s) (wires s)"
  shows "evaluate customGates s' = Inr s'"
proof -
  from evaluate_Inr[OF assms(1)] obtain r
    where r: "mainLoop customGates (wires s) 0 (gates s) = Inr r" and s': "s' = s\<lparr>gates := r\<rparr>"
    by blast
  have "compositeSettled customGates (wires s) rank 0 (gates s)"
    by (simp add: compositeSettled_def)
  from mainLoop_sweep_stable[OF r assms(2,5) this assms(4)]
  have sweep: "expandAll customGates (wires s) r = Inr (r, False)" .
  from mainLoop_last_round_signature[OF r] obtain prev ch
    where round: "mainRound customGates (wires s) prev = Inr (r, ch)"
      and sig: "map signature prev = map signature (gates s)" by blast
  from mainRound_Inr[OF round] obtain swept
    where sw: "expandAll customGates (wires s) prev = Inr (swept, ch)"
      and run: "runSimulation customGates swept (wires s) = Inr r" by blast
  from expandAll_signature[OF sw] sig have "map signature swept = map signature (gates s)"
    by simp
  from ranksBelow_cong[OF this, of rank MAX_ITERATIONS] assms(3)
  have "ranksBelow rank MAX_ITERATIONS swept" by simp
  from runSimulation_converges[OF run assms(2) this]
  have "simPass customGates (wires s) r = Inr (r, False)" .
  from runSimulation_fixpoint[OF this] sweep
  have "mainRound customGates (wires s) r = Inr (r, False)" by (simp add: mainRound_def)
  then have "mainLoop customGates (wires s) 0 r = Inr r"
    by (simp add: mainLoop.simps[of customGates "wires s" 0 r])
  then show ?thesis by (simp add: evaluate_def s')
qed

text \<open>
  The NAND circuit with both inputs on.
\<close>

theorem evaluate_idempotent_witness:
  "evaluate nandLibrary (nandCircuit True True) = Inr (nandSettled True True)
   \<and> ranked nandRank (wires (nandCircuit True True))
   \<and> ranksBelow nandRank MAX_ITERATIONS (gates (nandCircuit True True))
   \<and> compositeRanksBelow nandRank 10 (gates (nandCircuit True True))
   \<and> compositeFed (gates (nandCircuit True True)) (wires (nandCircuit True True))
   \<and> evaluate nandLibrary (nandSettled True True) = Inr (nandSettled True True)"
proof -
  have a: "evaluate nandLibrary (nandCircuit True True) = Inr (nandSettled True True)"
    by code_simp
  have b: "ranked nandRank (wires (nandCircuit True True))" by code_simp
  have c: "ranksBelow nandRank MAX_ITERATIONS (gates (nandCircuit True True))" by code_simp
  have d: "compositeRanksBelow nandRank 10 (gates (nandCircuit True True))" by code_simp
  have e: "compositeFed (gates (nandCircuit True True)) (wires (nandCircuit True True))"
    by code_simp
  from evaluate_idempotent[OF a b c d e] a b c d e show ?thesis by blast
qed

text \<open>
  Claim C5 as stated fails. The inverter circuit has no feedback, and neither has the
  NAND template. Settled with its INPUT off and then switched on, it is evaluated to a
  circuit whose NAND instance still holds the arrays of the old input; evaluating that
  circuit changes the arrays and the OUTPUT gate.
\<close>

theorem evaluate_idempotent_counterexample:
  "ranked inverterRank (wires (inverterState True True [True, True] [False] False))
   \<and> ranksBelow inverterRank 4 (gates (inverterState True True [True, True] [False] False))
   \<and> (case nandLibrary ''NAND'' of
         None \<Rightarrow> False
       | Some t \<Rightarrow> ranked templateRank (map instantiateWire (t_wires t)))
   \<and> handleInputToggle ''x'' (inverterState False True [True, True] [False] False)
       = inverterState True True [True, True] [False] False
   \<and> evaluate nandLibrary (inverterState False True [True, True] [False] False)
       = Inr (inverterState False True [True, True] [False] False)
   \<and> evaluate nandLibrary (inverterState True True [True, True] [False] False)
       = Inr (inverterState True False [True, True] [False] False)
   \<and> evaluate nandLibrary (inverterState True False [True, True] [False] False)
       = Inr (inverterState True False [False, False] [True] True)
   \<and> inverterState True False [False, False] [True] True
       \<noteq> inverterState True False [True, True] [False] False"
  by code_simp

text \<open>
  The two rank bounds of the amended claim are the two budgets. A chain of 52 NOT gates
  behind an INPUT gate is not settled by the 50 passes of one evaluation, and a chain of
  12 NAND instances is not settled by its 10 rounds: in both cases a second evaluation
  changes the result of the first.
\<close>

lemma deep_chain_second_evaluation:
  "ranked chainRank (wires deepChain) \<and> ranksBelow chainRank 53 (gates deepChain)
   \<and> compositeFed (gates deepChain) (wires deepChain)
   \<and> (case evaluate Map.empty deepChain of
         Inl e \<Rightarrow> False
       | Inr s1 \<Rightarrow> evaluate Map.empty s1 \<noteq> Inr s1)"
  by code_simp

lemma composite_tower_second_evaluation:
  "ranked towerRank (wires compositeTower) \<and> ranksBelow towerRank 13 (gates compositeTower)
   \<and> compositeFed (gates compositeTower) (wires compositeTower)
   \<and> (case evaluate nandLibrary compositeTower of
         Inl e \<Rightarrow> False
       | Inr s1 \<Rightarrow> evaluate nandLibrary s1 \<noteq> Inr s1)"
  by code_simp

end
